theory Spec2Isabelle
  imports Complex_Main
begin

section \<open>JavaScript values and the runtime outside the repository\<close>

text \<open>
  The library is a layer of callbacks over the AMQP client. What the JavaScript runtime and
  the client compute is not code of the repository: it enters the model as data. A value of
  the language is a \<open>jsval\<close>; a \<open>Buffer\<close> and a string are both byte strings.
\<close>

datatype jsval =
    JUndefined
  | JNull
  | JBool bool
  | JNum real
  | JNaN
  | JStr string
  | JArr "jsval list"
  | JObj "(string \<times> jsval) list"
  | JBuffer string

text \<open>\<open>!x\<close> is \<open>\<not> truthy x\<close>: every object, also an empty Buffer or array, is truthy.\<close>

fun truthy :: "jsval \<Rightarrow> bool" where
  "truthy JUndefined = False"
| "truthy JNull = False"
| "truthy (JBool b) = b"
| "truthy (JNum x) = (x \<noteq> 0)"
| "truthy JNaN = False"
| "truthy (JStr s) = (s \<noteq> [])"
| "truthy (JArr xs) = True"
| "truthy (JObj kvs) = True"
| "truthy (JBuffer b) = True"

text \<open>A string or \<open>undefined\<close>: truthy when present and not empty.\<close>

fun truthy_str :: "string option \<Rightarrow> bool" where
  "truthy_str None = False"
| "truthy_str (Some s) = (s \<noteq> [])"

datatype js_error = Error string | TypeError string | SyntaxError string

text \<open>
  The functions of the runtime that the code calls. \<open>JSON_parse\<close> gives \<open>None\<close> where
  \<open>JSON.parse\<close> throws a SyntaxError; \<open>JSON_stringify\<close> gives \<open>None\<close> where
  \<open>JSON.stringify\<close> returns \<open>undefined\<close>; \<open>Buffer_from_object\<close> is \<open>Buffer.from\<close>
  on an array or an object, \<open>None\<close> where it throws a TypeError; \<open>uuid_v4 n\<close> is what
  the n-th call of \<open>v4()\<close> returns, the text of a UUID, and \<open>publish_result n\<close> what the
  n-th call of \<open>channel.publish\<close> returns. \<open>call_inherited k v\<close> is the call \<open>o[k](v)\<close> of
  a function that a plain object \<open>o\<close> inherits from \<open>Object.prototype\<close> under the name
  \<open>k\<close>: \<open>None\<close> when the call returns, the error when it throws.
\<close>

record runtime =
  JSON_parse :: "string \<Rightarrow> jsval option"
  JSON_stringify :: "jsval \<Rightarrow> string option"
  Buffer_from_object :: "jsval \<Rightarrow> string option"
  uuid_v4 :: "nat \<Rightarrow> string"
  publish_result :: "nat \<Rightarrow> bool"
  call_inherited :: "string \<Rightarrow> jsval \<Rightarrow> js_error option"

text \<open>
  A table of \<open>JSON.parse\<close> and \<open>JSON.stringify\<close> on a few texts and values, for
  evaluating the handlers on concrete inputs. On the listed inputs it agrees with the
  runtime; the other inputs are not used.
\<close>

definition sample_parse :: "string \<Rightarrow> jsval option" where
  "sample_parse s =
     (if s = ''null'' then Some JNull
      else if s = ''false'' then Some (JBool False)
      else if s = ''true'' then Some (JBool True)
      else if s = ''0'' then Some (JNum 0)
      else if s = ''1'' then Some (JNum 1)
      else if s = [CHR 0x22, CHR 0x22] then Some (JStr [])
      else if s = [CHR 0x22, CHR ''a'', CHR 0x22] then Some (JStr ''a'')
      else if s = [CHR 0x22, CHR ''b'', CHR 0x22] then Some (JStr ''b'')
      else if s = [CHR 0x22, CHR ''c'', CHR 0x22] then Some (JStr ''c'')
      else None)"

definition sample_stringify :: "jsval \<Rightarrow> string option" where
  "sample_stringify v =
     (case v of
        JNull \<Rightarrow> Some ''null''
      | JBool b \<Rightarrow> Some (if b then ''true'' else ''false'')
      | JStr s \<Rightarrow>
          (if s = [] then Some [CHR 0x22, CHR 0x22]
           else if s = ''a'' then Some [CHR 0x22, CHR ''a'', CHR 0x22]
           else if s = ''b'' then Some [CHR 0x22, CHR ''b'', CHR 0x22]
           else if s = ''c'' then Some [CHR 0x22, CHR ''c'', CHR 0x22]
           else None)
      | _ \<Rightarrow> None)"

definition sample_runtime :: runtime where
  "sample_runtime =
     \<lparr> JSON_parse = sample_parse, JSON_stringify = sample_stringify,
       Buffer_from_object = (\<lambda>v. None),
       uuid_v4 = (\<lambda>n. replicate (Suc n) (CHR ''u'')), publish_result = (\<lambda>n. False),
       call_inherited = (\<lambda>k v. None) \<rparr>"

section \<open>Option bags, messages, handles\<close>

type_synonym conn = nat
type_synonym chan = nat
type_synonym fn = nat

text \<open>
  An option bag has every key optional. A field holds the value that reading the key
  gives, \<open>None\<close> for \<open>undefined\<close>. A key that reads \<open>undefined\<close> is either missing or
  present with the value \<open>undefined\<close>, and lodash's \<open>extend\<close> tells the two apart: it
  copies every key that is present, also one whose value is \<open>undefined\<close>. The bags that
  go through \<open>extend\<close> therefore list, in their last field, keys that are present: a
  listed key whose field is \<open>None\<close> is present with the value \<open>undefined\<close>; for a key
  whose field has a value the list says nothing. \<open>extend({}, DEFAULTS, options)\<close> takes
  a key from \<open>options\<close> when it is present there, and from the defaults otherwise.
\<close>

definition extend_key :: "string \<Rightarrow> string list \<Rightarrow> 'a option \<Rightarrow> 'a option \<Rightarrow> 'a option" where
  "extend_key k present dflt given =
     (case given of Some v \<Rightarrow> Some v | None \<Rightarrow> if k \<in> set present then None else dflt)"

record ExchangeOptions =
  xo_durable :: "bool option"
  xo_internal :: "bool option"
  xo_autoDelete :: "bool option"
  xo_alternateExchange :: "string option"
  xo_noReply :: "bool option"
  xo_undefined :: "string list"

record PublishOptions =
  po_key :: "string option"
  po_noAck :: "bool option"
  po_reply :: "fn option"
  po_contentType :: "string option"
  po_mandatory :: "bool option"
  po_persistent :: "bool option"
  po_expiration :: "string option"
  po_userId :: "string option"
  po_CC :: "string list option"
  po_BCC :: "string list option"
  po_replyTo :: "string option"
  po_correlationId :: "string option"
  po_undefined :: "string list"

record QueueOptions =
  qo_name :: "string option"
  qo_exclusive :: "bool option"
  qo_durable :: "bool option"
  qo_prefetch :: "nat option"
  qo_messageTtl :: "nat option"
  qo_maxLength :: "nat option"
  qo_key :: "string option"
  qo_keys :: "string list option"

record ConsumeOptions =
  co_consumerTag :: "string option"
  co_noAck :: "bool option"
  co_exclusive :: "bool option"
  co_priority :: "nat option"
  co_undefined :: "string list"

record NackOptions =
  no_allUpTo :: "bool option"
  no_requeue :: "bool option"

text \<open>An \<open>amqp.Message\<close>: the body and the properties and fields the code reads.\<close>

record message =
  m_content :: string
  m_contentType :: "string option"
  m_replyTo :: "string option"
  m_correlationId :: "string option"
  m_routingKey :: string

definition DEFAULT_EXCHANGE_OPTIONS :: ExchangeOptions where
  "DEFAULT_EXCHANGE_OPTIONS =
     \<lparr> xo_durable = Some True, xo_internal = Some False, xo_autoDelete = Some False,
       xo_alternateExchange = None, xo_noReply = Some False,
       xo_undefined = [''alternateExchange''] \<rparr>"

definition no_exchange_options :: ExchangeOptions where
  "no_exchange_options =
     \<lparr> xo_durable = None, xo_internal = None, xo_autoDelete = None,
       xo_alternateExchange = None, xo_noReply = None, xo_undefined = [] \<rparr>"

definition extend_ExchangeOptions :: "ExchangeOptions \<Rightarrow> ExchangeOptions \<Rightarrow> ExchangeOptions" where
  "extend_ExchangeOptions d g =
     \<lparr> xo_durable =
         extend_key ''durable'' (xo_undefined g) (xo_durable d) (xo_durable g),
       xo_internal =
         extend_key ''internal'' (xo_undefined g) (xo_internal d) (xo_internal g),
       xo_autoDelete =
         extend_key ''autoDelete'' (xo_undefined g) (xo_autoDelete d) (xo_autoDelete g),
       xo_alternateExchange =
         extend_key ''alternateExchange'' (xo_undefined g)
           (xo_alternateExchange d) (xo_alternateExchange g),
       xo_noReply =
         extend_key ''noReply'' (xo_undefined g) (xo_noReply d) (xo_noReply g),
       xo_undefined = xo_undefined d @ xo_undefined g \<rparr>"

definition DEFAULT_PUBLISH_OPTIONS :: PublishOptions where
  "DEFAULT_PUBLISH_OPTIONS =
     \<lparr> po_key = None, po_noAck = None, po_reply = None,
       po_contentType = Some ''application/json'', po_mandatory = Some False,
       po_persistent = Some False, po_expiration = None, po_userId = None,
       po_CC = None, po_BCC = None, po_replyTo = None, po_correlationId = None,
       po_undefined = [''expiration'', ''userId'', ''CC'', ''BCC''] \<rparr>"

definition no_publish_options :: PublishOptions where
  "no_publish_options =
     \<lparr> po_key = None, po_noAck = None, po_reply = None, po_contentType = None,
       po_mandatory = None, po_persistent = None, po_expiration = None, po_userId = None,
       po_CC = None, po_BCC = None, po_replyTo = None, po_correlationId = None,
       po_undefined = [] \<rparr>"

definition extend_PublishOptions :: "PublishOptions \<Rightarrow> PublishOptions \<Rightarrow> PublishOptions" where
  "extend_PublishOptions d g =
     \<lparr> po_key =
         extend_key ''key'' (po_undefined g) (po_key d) (po_key g),
       po_noAck =
         extend_key ''noAck'' (po_undefined g) (po_noAck d) (po_noAck g),
       po_reply =
         extend_key ''reply'' (po_undefined g) (po_reply d) (po_reply g),
       po_contentType =
         extend_key ''contentType'' (po_undefined g) (po_contentType d) (po_contentType g),
       po_mandatory =
         extend_key ''mandatory'' (po_undefined g) (po_mandatory d) (po_mandatory g),
       po_persistent =
         extend_key ''persistent'' (po_undefined g) (po_persistent d) (po_persistent g),
       po_expiration =
         extend_key ''expiration'' (po_undefined g) (po_expiration d) (po_expiration g),
       po_userId =
         extend_key ''userId'' (po_undefined g) (po_userId d) (po_userId g),
       po_CC =
         extend_key ''CC'' (po_undefined g) (po_CC d) (po_CC g),
       po_BCC =
         extend_key ''BCC'' (po_undefined g) (po_BCC d) (po_BCC g),
       po_replyTo =
         extend_key ''replyTo'' (po_undefined g) (po_replyTo d) (po_replyTo g),
       po_correlationId =
         extend_key ''correlationId'' (po_undefined g)
           (po_correlationId d) (po_correlationId g),
       po_undefined = po_undefined d @ po_undefined g \<rparr>"

definition no_queue_options :: QueueOptions where
  "no_queue_options =
     \<lparr> qo_name = None, qo_exclusive = None, qo_durable = None, qo_prefetch = None,
       qo_messageTtl = None, qo_maxLength = None, qo_key = None, qo_keys = None \<rparr>"

definition DEFAULT_CONSUME_OPTIONS :: ConsumeOptions where
  "DEFAULT_CONSUME_OPTIONS =
     \<lparr> co_consumerTag = None, co_noAck = Some False, co_exclusive = Some False,
       co_priority = None, co_undefined = [''consumerTag'', ''priority''] \<rparr>"

definition extend_ConsumeOptions :: "ConsumeOptions \<Rightarrow> ConsumeOptions \<Rightarrow> ConsumeOptions" where
  "extend_ConsumeOptions d g =
     \<lparr> co_consumerTag =
         extend_key ''consumerTag'' (co_undefined g) (co_consumerTag d) (co_consumerTag g),
       co_noAck =
         extend_key ''noAck'' (co_undefined g) (co_noAck d) (co_noAck g),
       co_exclusive =
         extend_key ''exclusive'' (co_undefined g) (co_exclusive d) (co_exclusive g),
       co_priority =
         extend_key ''priority'' (co_undefined g) (co_priority d) (co_priority g),
       co_undefined = co_undefined d @ co_undefined g \<rparr>"


section \<open>Objects, listeners and the trace\<close>

text \<open>
  Every object is an EventEmitter. The listeners that the code itself registers are its
  closures, one constructor each: on the exchange the once-listeners of "ready", on a queue
  the once-listeners of "ready" and the listeners of "close". The callbacks it hands to the
  AMQP client and to the runtime are the tokens. A queue is addressed by a reference: the
  hidden reply queue of the exchange, or the n-th queue made by \<open>Exchange.queue\<close>.
  Listeners registered by the caller are not part of the model: an emission is recorded in
  the trace, which is where they would run.
\<close>

datatype event = EvConnected | EvReady | EvBound | EvConsuming | EvDrain | EvClose | EvError

datatype qref = ReplyQueue | NewQueue nat

datatype emitter = TheExchange | TheQueue qref

datatype consumer = OnReply | Callback fn

datatype exchange_listener =
    SendMessage jsval PublishOptions
  | ConnectQueue nat

datatype queue_listener =
    BindOnReady nat
  | ConsumeOnReady consumer ConsumeOptions
  | IsReady

datatype close_listener = Bail

datatype token =
    OnChannel
  | OnExchange
  | OnChannelClose
  | OnChannelDrain
  | Immediate
  | OnQueueChannel qref
  | OnQueue qref
  | OnQueueChannelClose qref
  | OnConsume qref
  | OnMessage qref consumer
  | OnBind nat nat
  | ThenBound nat
  | CatchBail nat js_error

text \<open>What the environment does: a call of the public interface, or a callback coming back.\<close>

datatype input =
    CallConnect conn
  | CallPublish jsval PublishOptions
  | CallQueue QueueOptions
  | CallConsume nat fn ConsumeOptions
  | CallAck nat message jsval
  | CallNack nat message NackOptions
  | ChannelCreated "js_error option" chan
  | ExchangeAsserted "js_error option"
  | ChannelClosed
  | ChannelDrained
  | ImmediateRan
  | QueueChannelCreated qref "js_error option" chan
  | QueueAsserted qref "js_error option" string
  | QueueChannelClosed qref
  | ConsumeStarted qref "js_error option" string
  | Delivery qref consumer "message option"
  | BindDone nat nat "js_error option"
  | BoundThen nat
  | BindCatch nat js_error

datatype effect =
    Received input
  | CreateChannel conn token
  | Prefetch chan nat
  | AssertExchange chan string string ExchangeOptions
  | AssertQueue chan "string option" QueueOptions
  | BindQueue chan "string option" string string
  | Publish chan string "string option" string PublishOptions
  | Consume chan "string option" consumer ConsumeOptions
  | Ack chan message
  | Nack chan message bool bool
  | SetImmediate
  | Emit emitter event "js_error option"
  | CallReply fn jsval
  | Deliver qref fn jsval message

record Queue =
  q_channel :: "chan option"
  q_consumerTag :: "string option"
  q_name :: "string option"
  q_options :: QueueOptions
  q_onceReady :: "queue_listener list"
  q_onClose :: "close_listener list"

record Exchange =
  x_name :: string
  x_type :: string
  x_options :: ExchangeOptions
  x_ready :: bool
  x_connection :: "conn option"
  x_channel :: "chan option"
  x_publishing :: int
  x_replyQueue :: "qref option"
  x_pendingReplies :: "string \<rightharpoonup> fn"
  x_onceReady :: "exchange_listener list"

text \<open>The promises of one \<open>bindKeys\<close> call and whether their \<open>Promise.all\<close> has settled.\<close>

datatype pstate = Pending | Fulfilled | Rejected js_error

record binding =
  b_promises :: "pstate list"
  b_settled :: bool

record world =
  exchange :: Exchange
  heap :: "qref \<rightharpoonup> Queue"
  allocated :: nat
  bindings :: "nat \<rightharpoonup> binding"
  outstanding :: "token list"
  trace :: "effect list"
  v4_calls :: nat
  publish_calls :: nat

definition log :: "effect \<Rightarrow> world \<Rightarrow> world" where
  "log e w = w\<lparr>trace := trace w @ [e]\<rparr>"

definition hand_out :: "token \<Rightarrow> world \<Rightarrow> world" where
  "hand_out t w = w\<lparr>outstanding := outstanding w @ [t]\<rparr>"

definition upd_exchange :: "(Exchange \<Rightarrow> Exchange) \<Rightarrow> world \<Rightarrow> world" where
  "upd_exchange f w = w\<lparr>exchange := f (exchange w)\<rparr>"

definition upd_queue :: "qref \<Rightarrow> (Queue \<Rightarrow> Queue) \<Rightarrow> world \<Rightarrow> world" where
  "upd_queue r f w =
     (case heap w r of None \<Rightarrow> w | Some q \<Rightarrow> w\<lparr>heap := (heap w)(r \<mapsto> f q)\<rparr>)"

definition replyQueue_of :: "world \<Rightarrow> Queue option" where
  "replyQueue_of w = (case x_replyQueue (exchange w) of None \<Rightarrow> None | Some r \<Rightarrow> heap w r)"

text \<open>
  \<open>emit\<close> calls the listeners of the event in the order of registration. An exception
  thrown by a listener leaves \<open>emit\<close> and the handler that called it: the result is
  \<open>Inl\<close>, and the listeners after it are not called.
\<close>

fun run_all :: "('l \<Rightarrow> world \<Rightarrow> js_error + world) \<Rightarrow> 'l list \<Rightarrow> world \<Rightarrow> js_error + world" where
  "run_all f [] w = Inr w"
| "run_all f (l # ls) w = (case f l w of Inl e \<Rightarrow> Inl e | Inr w' \<Rightarrow> run_all f ls w')"

section \<open>queue.ts: construction and connection\<close>

definition Queue_constructor :: "QueueOptions \<Rightarrow> Queue" where
  "Queue_constructor options =
     \<lparr> q_channel = None, q_consumerTag = None, q_name = qo_name options,
       q_options = options, q_onceReady = [], q_onClose = [] \<rparr>"

text \<open>\<open>Queue.connect\<close>: asks the connection for a channel; the rest is the callback.\<close>

definition Queue_connect :: "qref \<Rightarrow> conn \<Rightarrow> world \<Rightarrow> world" where
  "Queue_connect r connection w =
     hand_out (OnQueueChannel r) (log (CreateChannel connection (OnQueueChannel r)) w)"

definition Queue_once_ready :: "qref \<Rightarrow> queue_listener \<Rightarrow> world \<Rightarrow> world" where
  "Queue_once_ready r l w = upd_queue r (\<lambda>q. q\<lparr>q_onceReady := q_onceReady q @ [l]\<rparr>) w"

definition Queue_on_close :: "qref \<Rightarrow> close_listener \<Rightarrow> world \<Rightarrow> world" where
  "Queue_on_close r l w = upd_queue r (\<lambda>q. q\<lparr>q_onClose := q_onClose q @ [l]\<rparr>) w"

text \<open>\<open>Queue.consume\<close>: everything is deferred to the queue's "ready".\<close>

definition consume :: "qref \<Rightarrow> consumer \<Rightarrow> ConsumeOptions \<Rightarrow> world \<Rightarrow> world" where
  "consume r callback options w = Queue_once_ready r (ConsumeOnReady callback options) w"

section \<open>exchange.ts\<close>

definition isDefaultType :: "string \<Rightarrow> bool" where
  "isDefaultType t = (t \<in> set [''direct'', ''fanout'', ''topic''])"

definition DEFAULT_EXCHANGES :: "(string \<times> string) list" where
  "DEFAULT_EXCHANGES =
     [(''direct'', ''amq.direct''), (''fanout'', ''amq.fanout''), (''topic'', ''amq.topic'')]"

definition isDefault :: "string \<Rightarrow> string \<Rightarrow> bool" where
  "isDefault name t = (isDefaultType t \<and> map_of DEFAULT_EXCHANGES t = Some name)"

definition isNameless :: "string option \<Rightarrow> bool" where
  "isNameless name = (name = Some [])"

text \<open>
  The constructor. \<open>!type\<close> holds for \<open>undefined\<close> and for the empty string. The reply queue
  is made here, unconnected, unless \<open>noReply\<close> is set.
\<close>

definition resolve_name :: "string option \<Rightarrow> string \<Rightarrow> js_error + string" where
  "resolve_name name t =
     (if isNameless name then Inr []
      else
        (let n = (if truthy_str name then name
                  else if isDefaultType t then map_of DEFAULT_EXCHANGES t else Some [])
         in case n of
              None \<Rightarrow> Inl (Error ''missing exchange name'')
            | Some s \<Rightarrow> if s = [] then Inl (Error ''missing exchange name'') else Inr s))"

definition Exchange_constructor ::
  "string option \<Rightarrow> string option \<Rightarrow> ExchangeOptions \<Rightarrow> js_error + world" where
  "Exchange_constructor name type options =
     (case type of
        None \<Rightarrow> Inl (Error ''missing exchange type'')
      | Some t \<Rightarrow>
          if t = [] then Inl (Error ''missing exchange type'')
          else
            (case resolve_name name t of
               Inl e \<Rightarrow> Inl e
             | Inr n \<Rightarrow>
                 (let opts = extend_ExchangeOptions DEFAULT_EXCHANGE_OPTIONS options;
                      noReply = (xo_noReply opts = Some True)
                  in Inr \<lparr> exchange =
                             \<lparr> x_name = n, x_type = t, x_options = opts, x_ready = False,
                               x_connection = None, x_channel = None, x_publishing = 0,
                               x_replyQueue = (if noReply then None else Some ReplyQueue),
                               x_pendingReplies = Map.empty, x_onceReady = [] \<rparr>,
                           heap = (if noReply then Map.empty
                                   else [ReplyQueue \<mapsto>
                                     Queue_constructor (no_queue_options\<lparr>qo_exclusive := Some True\<rparr>)]),
                           allocated = 0, bindings = Map.empty, outstanding = [],
                           trace = [], v4_calls = 0, publish_calls = 0 \<rparr>)))"

definition connect :: "conn \<Rightarrow> world \<Rightarrow> world" where
  "connect con w =
     (let w1 = upd_exchange (\<lambda>x. x\<lparr>x_connection := Some con\<rparr>) w;
          w2 = hand_out OnChannel (log (CreateChannel con OnChannel) w1)
      in case x_replyQueue (exchange w2) of
           None \<Rightarrow> w2
         | Some r \<Rightarrow>
             consume r OnReply
               \<lparr> co_consumerTag = None, co_noAck = Some True, co_exclusive = None,
                 co_priority = None, co_undefined = [] \<rparr>
               (Queue_on_close r Bail w2))"

text \<open>
  \<open>Exchange.queue\<close>: the new queue gets the next reference. It is connected at once when
  the exchange has a connection, and on the exchange's "ready" otherwise.
\<close>

definition createQueue :: "QueueOptions \<Rightarrow> world \<Rightarrow> world" where
  "createQueue options w =
     (let n = allocated w;
          w1 = w\<lparr>heap := (heap w)(NewQueue n \<mapsto> Queue_constructor options),
                 allocated := Suc n\<rparr>;
          w2 = Queue_once_ready (NewQueue n) (BindOnReady n) (Queue_on_close (NewQueue n) Bail w1)
      in case x_connection (exchange w2) of
           Some c \<Rightarrow> Queue_connect (NewQueue n) c w2
         | None \<Rightarrow> upd_exchange (\<lambda>x. x\<lparr>x_onceReady := x_onceReady x @ [ConnectQueue n]\<rparr>) w2)"

definition Exchange_encodeMessage :: "runtime \<Rightarrow> jsval \<Rightarrow> string option \<Rightarrow> jsval" where
  "Exchange_encodeMessage rt message contentType =
     (if contentType = Some ''application/json''
      then (case JSON_stringify rt message of None \<Rightarrow> JUndefined | Some s \<Rightarrow> JStr s)
      else message)"

text \<open>\<open>Buffer.isBuffer(msg) ? msg : Buffer.from(msg)\<close>; \<open>Buffer.from\<close> throws on a primitive
  that is not a string.\<close>

definition to_Buffer :: "runtime \<Rightarrow> jsval \<Rightarrow> js_error + string" where
  "to_Buffer rt msg =
     (case msg of
        JBuffer b \<Rightarrow> Inr b
      | JStr s \<Rightarrow> Inr s
      | JArr xs \<Rightarrow>
          (case Buffer_from_object rt msg of
             None \<Rightarrow> Inl (TypeError ''The first argument must be of type string'')
           | Some b \<Rightarrow> Inr b)
      | JObj kvs \<Rightarrow>
          (case Buffer_from_object rt msg of
             None \<Rightarrow> Inl (TypeError ''The first argument must be of type string'')
           | Some b \<Rightarrow> Inr b)
      | _ \<Rightarrow> Inl (TypeError ''The first argument must be of type string''))"

definition onDrain :: "world \<Rightarrow> world" where
  "onDrain w = hand_out Immediate (log SetImmediate w)"

text \<open>
  \<open>sendMessage\<close>, the closure of \<open>publish\<close>. The reply option stores the callback under a
  new id; a missing reply queue or channel is a TypeError at the property access. The
  assignment of \<open>replyTo\<close> makes that key present, whatever the name of the reply queue
  is, and \<open>delete\<close> removes the key \<open>reply\<close>.
\<close>

definition sendMessage :: "runtime \<Rightarrow> jsval \<Rightarrow> PublishOptions \<Rightarrow> world \<Rightarrow> js_error + world" where
  "sendMessage rt message options w =
     (let opts = extend_PublishOptions DEFAULT_PUBLISH_OPTIONS options;
          msg = Exchange_encodeMessage rt message (po_contentType opts);
          replied =
            (case po_reply opts of
               None \<Rightarrow> Inr (opts, w)
             | Some reply \<Rightarrow>
                 (case replyQueue_of w of
                    None \<Rightarrow> Inl (TypeError ''Cannot read properties of null'')
                  | Some q \<Rightarrow>
                      (let id = uuid_v4 rt (v4_calls w)
                       in Inr (opts\<lparr>po_replyTo := q_name q, po_correlationId := Some id,
                                    po_reply := None,
                                    po_undefined :=
                                      ''replyTo'' # removeAll ''reply'' (po_undefined opts)\<rparr>,
                               upd_exchange
                                 (\<lambda>x. x\<lparr>x_pendingReplies := (x_pendingReplies x)(id \<mapsto> reply)\<rparr>)
                                 (w\<lparr>v4_calls := Suc (v4_calls w)\<rparr>)))))
      in case replied of
           Inl e \<Rightarrow> Inl e
         | Inr (opts', w1) \<Rightarrow>
             (case x_channel (exchange w1) of
                None \<Rightarrow> Inl (TypeError ''Cannot read properties of undefined'')
              | Some ch \<Rightarrow>
                  (case to_Buffer rt msg of
                     Inl e \<Rightarrow> Inl e
                   | Inr buffer \<Rightarrow>
                       (let w2 = log (Publish ch (x_name (exchange w1)) (po_key opts') buffer opts') w1;
                            drained = publish_result rt (publish_calls w2);
                            w3 = w2\<lparr>publish_calls := Suc (publish_calls w2)\<rparr>
                        in Inr (if drained then onDrain w3 else w3)))))"

definition Exchange_listener :: "runtime \<Rightarrow> exchange_listener \<Rightarrow> world \<Rightarrow> js_error + world" where
  "Exchange_listener rt l w =
     (case l of
        SendMessage message options \<Rightarrow> sendMessage rt message options w
      | ConnectQueue n \<Rightarrow>
          (case x_connection (exchange w) of
             None \<Rightarrow> Inl (TypeError ''Cannot read properties of undefined'')
           | Some c \<Rightarrow> Inr (Queue_connect (NewQueue n) c w)))"

text \<open>\<open>emit("ready")\<close> on the exchange: the once-listeners run in order and are gone.\<close>

definition Exchange_emit_ready :: "runtime \<Rightarrow> world \<Rightarrow> js_error + world" where
  "Exchange_emit_ready rt w =
     run_all (Exchange_listener rt) (x_onceReady (exchange w))
       (log (Emit TheExchange EvReady None) (upd_exchange (\<lambda>x. x\<lparr>x_onceReady := []\<rparr>) w))"

definition isReady :: "runtime \<Rightarrow> world \<Rightarrow> js_error + world" where
  "isReady rt w = Exchange_emit_ready rt (upd_exchange (\<lambda>x. x\<lparr>x_ready := True\<rparr>) w)"

definition publish :: "runtime \<Rightarrow> jsval \<Rightarrow> PublishOptions \<Rightarrow> world \<Rightarrow> js_error + world" where
  "publish rt message options w =
     (let w1 = upd_exchange (\<lambda>x. x\<lparr>x_publishing := x_publishing x + 1\<rparr>) w
      in if x_ready (exchange w1) then sendMessage rt message options w1
         else Inr (upd_exchange
                     (\<lambda>x. x\<lparr>x_onceReady := x_onceReady x @ [SendMessage message options]\<rparr>) w1))"

text \<open>
  \<open>pendingReplies[id]?.(data)\<close>: an \<open>undefined\<close> id is the key "undefined". The table is a
  plain object, \<open>x_pendingReplies\<close> holds its own properties, and a key that is not
  among them is looked up in \<open>Object.prototype\<close>. There \<open>__proto__\<close> is the prototype
  itself, an object, which the call finds is not a function; the other properties are
  functions, which are called with the data. \<open>__defineGetter__\<close> and \<open>__defineSetter__\<close>
  throw, their second argument not being a function; what the others do with the data
  is the runtime's. Any other key gives \<open>undefined\<close>, and nothing is called.
\<close>

definition Object_prototype_functions :: "string list" where
  "Object_prototype_functions =
     [''constructor'', ''hasOwnProperty'', ''isPrototypeOf'', ''propertyIsEnumerable'',
      ''toLocaleString'', ''toString'', ''valueOf'', ''__lookupGetter__'', ''__lookupSetter__'']"


definition onReply :: "runtime \<Rightarrow> jsval \<Rightarrow> message \<Rightarrow> world \<Rightarrow> js_error + world" where
  "onReply rt data msg w =
     (let key = (case m_correlationId msg of None \<Rightarrow> ''undefined'' | Some i \<Rightarrow> i)
      in case x_pendingReplies (exchange w) key of
           Some reply \<Rightarrow> Inr (log (CallReply reply data) w)
         | None \<Rightarrow>
             if key = ''__proto__'' then Inl (TypeError ''is not a function'')
             else if key \<in> set [''__defineGetter__'', ''__defineSetter__'']
             then Inl (TypeError ''Expecting function'')
             else if key \<in> set Object_prototype_functions
             then (case call_inherited rt key data of None \<Rightarrow> Inr w | Some e \<Rightarrow> Inl e)
             else Inr w)"

definition bail :: "js_error option \<Rightarrow> world \<Rightarrow> world" where
  "bail err w =
     log (Emit TheExchange EvClose err)
       (upd_exchange (\<lambda>x. x\<lparr>x_connection := None, x_channel := None\<rparr>) w)"

text \<open>The callback that \<open>onDrain\<close> gives to \<open>setImmediate\<close>.\<close>

definition onImmediate :: "world \<Rightarrow> world" where
  "onImmediate w =
     (let w1 = upd_exchange (\<lambda>x. x\<lparr>x_publishing := x_publishing x - 1\<rparr>) w
      in if x_publishing (exchange w1) = 0 then log (Emit TheExchange EvDrain None) w1 else w1)"

definition onExchange :: "runtime \<Rightarrow> js_error option \<Rightarrow> world \<Rightarrow> js_error + world" where
  "onExchange rt err w =
     (case err of
        Some e \<Rightarrow> Inr (bail (Some e) w)
      | None \<Rightarrow>
          (case x_replyQueue (exchange w) of
             Some r \<Rightarrow>
               (case x_connection (exchange w) of
                  None \<Rightarrow> Inl (TypeError ''Cannot read properties of undefined'')
                | Some c \<Rightarrow> Inr (Queue_once_ready r IsReady (Queue_connect r c w)))
           | None \<Rightarrow> isReady rt w))"

definition onChannel :: "runtime \<Rightarrow> js_error option \<Rightarrow> chan \<Rightarrow> world \<Rightarrow> js_error + world" where
  "onChannel rt err chan w =
     (case err of
        Some e \<Rightarrow> Inr (bail (Some e) w)
      | None \<Rightarrow>
          (let w1 = upd_exchange (\<lambda>x. x\<lparr>x_channel := Some chan\<rparr>) w;
               w2 = hand_out OnChannelDrain (hand_out OnChannelClose w1);
               w3 = log (Emit TheExchange EvConnected None) w2;
               x = exchange w3
           in if isDefault (x_name x) (x_type x) \<or> isNameless (Some (x_name x))
              then onExchange rt None w3
              else (case x_channel x of
                      None \<Rightarrow> Inl (TypeError ''Cannot read properties of undefined'')
                    | Some ch \<Rightarrow>
                        Inr (hand_out OnExchange
                               (log (AssertExchange ch (x_name x) (x_type x) (x_options x)) w3)))))"

section \<open>Binding the routing keys\<close>

text \<open>\<open>(options?.keys || [options?.key]).filter(Boolean)\<close>: an array, also an empty one,
  is truthy; \<open>undefined\<close> and the empty string are filtered out.\<close>

definition bind_keys_of :: "QueueOptions \<Rightarrow> string list" where
  "bind_keys_of options =
     (let keys = (case qo_keys options of Some ks \<Rightarrow> map Some ks | None \<Rightarrow> [qo_key options])
      in map the (filter truthy_str keys))"

fun first_rejected :: "pstate list \<Rightarrow> js_error option" where
  "first_rejected [] = None"
| "first_rejected (Rejected e # ps) = Some e"
| "first_rejected (p # ps) = first_rejected ps"

text \<open>
  \<open>Promise.all(...).then(emit "bound").catch(bail)\<close>: it settles once, rejected by the
  first rejection or fulfilled when every promise is; the continuation is a callback of
  the runtime, run later.
\<close>

definition Promise_all :: "nat \<Rightarrow> world \<Rightarrow> world" where
  "Promise_all n w =
     (case bindings w n of
        None \<Rightarrow> w
      | Some b \<Rightarrow>
          if b_settled b then w
          else
            (case first_rejected (b_promises b) of
               Some e \<Rightarrow>
                 hand_out (CatchBail n e) (w\<lparr>bindings := (bindings w)(n \<mapsto> b\<lparr>b_settled := True\<rparr>)\<rparr>)
             | None \<Rightarrow>
                 if list_all (\<lambda>p. p = Fulfilled) (b_promises b)
                 then hand_out (ThenBound n)
                        (w\<lparr>bindings := (bindings w)(n \<mapsto> b\<lparr>b_settled := True\<rparr>)\<rparr>)
                 else w))"

text \<open>\<open>bindKey\<close>: the executor of one promise. Without a channel it throws, which rejects
  the promise.\<close>

definition bindKey :: "nat \<Rightarrow> nat \<times> string \<Rightarrow> world \<Rightarrow> world" where
  "bindKey n ik w =
     (case x_channel (exchange w) of
        None \<Rightarrow> w
      | Some ch \<Rightarrow>
          hand_out (OnBind n (fst ik))
            (log (BindQueue ch (case heap w (NewQueue n) of None \<Rightarrow> None | Some q \<Rightarrow> q_name q)
                    (x_name (exchange w)) (snd ik)) w))"

definition bindKeys :: "nat \<Rightarrow> string list \<Rightarrow> world \<Rightarrow> world" where
  "bindKeys n keys w =
     (let p = (case x_channel (exchange w) of
                 None \<Rightarrow> Rejected (TypeError ''Cannot read properties of undefined'')
               | Some ch \<Rightarrow> Pending);
          w1 = fold (bindKey n) (enumerate 0 keys) w
      in Promise_all n
           (w1\<lparr>bindings := (bindings w1)(n \<mapsto> \<lparr>b_promises = map (\<lambda>k. p) keys, b_settled = False\<rparr>)\<rparr>))"

text \<open>The callback of \<open>bindQueue\<close> for key \<open>i\<close> of queue \<open>n\<close>.\<close>

definition onBind :: "nat \<Rightarrow> nat \<Rightarrow> js_error option \<Rightarrow> world \<Rightarrow> world" where
  "onBind n i err w =
     (case bindings w n of
        None \<Rightarrow> w
      | Some b \<Rightarrow>
          if i < length (b_promises b) \<and> b_promises b ! i = Pending
          then Promise_all n
                 (w\<lparr>bindings := (bindings w)(n \<mapsto>
                      b\<lparr>b_promises := (b_promises b)
                           [i := (case err of Some e \<Rightarrow> Rejected e | None \<Rightarrow> Fulfilled)]\<rparr>)\<rparr>)
          else w)"

section \<open>queue.ts: events and callbacks\<close>

definition Queue_listener :: "runtime \<Rightarrow> qref \<Rightarrow> queue_listener \<Rightarrow> world \<Rightarrow> js_error + world" where
  "Queue_listener rt r l w =
     (case l of
        BindOnReady n \<Rightarrow>
          Inr (if \<not> isNameless (Some (x_name (exchange w)))
               then (case heap w (NewQueue n) of
                       None \<Rightarrow> w
                     | Some q \<Rightarrow> bindKeys n (bind_keys_of (q_options q)) w)
               else w)
      | ConsumeOnReady callback options \<Rightarrow>
          (case heap w r of
             None \<Rightarrow> Inr w
           | Some q \<Rightarrow>
               (case q_channel q of
                  None \<Rightarrow> Inl (TypeError ''Cannot read properties of undefined'')
                | Some ch \<Rightarrow>
                    Inr (hand_out (OnMessage r callback)
                          (hand_out (OnConsume r)
                            (log (Consume ch (q_name q) callback
                                    (extend_ConsumeOptions DEFAULT_CONSUME_OPTIONS options)) w)))))
      | IsReady \<Rightarrow> isReady rt w)"

definition Queue_emit_ready :: "runtime \<Rightarrow> qref \<Rightarrow> world \<Rightarrow> js_error + world" where
  "Queue_emit_ready rt r w =
     (case heap w r of
        None \<Rightarrow> Inr w
      | Some q \<Rightarrow>
          run_all (Queue_listener rt r) (q_onceReady q)
            (log (Emit (TheQueue r) EvReady None) (upd_queue r (\<lambda>q. q\<lparr>q_onceReady := []\<rparr>) w)))"

definition Queue_emit_close :: "qref \<Rightarrow> js_error option \<Rightarrow> world \<Rightarrow> world" where
  "Queue_emit_close r err w =
     (case heap w r of
        None \<Rightarrow> w
      | Some q \<Rightarrow> fold (\<lambda>l. bail err) (q_onClose q) (log (Emit (TheQueue r) EvClose err) w))"

definition Queue_bail :: "qref \<Rightarrow> js_error option \<Rightarrow> world \<Rightarrow> world" where
  "Queue_bail r err w =
     Queue_emit_close r err
       (upd_queue r (\<lambda>q. q\<lparr>q_channel := None, q_name := None, q_consumerTag := None\<rparr>) w)"

text \<open>The callback of \<open>createChannel\<close> in \<open>Queue.connect\<close>, and the one of \<open>assertQueue\<close>.\<close>

definition Queue_onChannel :: "qref \<Rightarrow> js_error option \<Rightarrow> chan \<Rightarrow> world \<Rightarrow> world" where
  "Queue_onChannel r err channel w =
     (case err of
        Some e \<Rightarrow> Queue_bail r (Some e) w
      | None \<Rightarrow>
          (case heap w r of
             None \<Rightarrow> w
           | Some q \<Rightarrow>
               (let w1 = upd_queue r (\<lambda>q. q\<lparr>q_channel := Some channel\<rparr>) w;
                    w2 = log (Prefetch channel
                                (case qo_prefetch (q_options q) of None \<Rightarrow> 1 | Some p \<Rightarrow> p)) w1;
                    w3 = hand_out (OnQueueChannelClose r) w2;
                    w4 = log (Emit (TheQueue r) EvConnected None) w3
                in hand_out (OnQueue r) (log (AssertQueue channel (q_name q) (q_options q)) w4))))"

definition Queue_onQueue :: "runtime \<Rightarrow> qref \<Rightarrow> js_error option \<Rightarrow> string \<Rightarrow> world \<Rightarrow> js_error + world" where
  "Queue_onQueue rt r err name w =
     (case err of
        Some e \<Rightarrow> Inr (Queue_bail r (Some e) w)
      | None \<Rightarrow> Queue_emit_ready rt r (upd_queue r (\<lambda>q. q\<lparr>q_name := Some name\<rparr>) w))"

definition onConsume :: "qref \<Rightarrow> js_error option \<Rightarrow> string \<Rightarrow> world \<Rightarrow> world" where
  "onConsume r err tag w =
     (case err of
        Some e \<Rightarrow> Queue_bail r (Some e) w
      | None \<Rightarrow>
          log (Emit (TheQueue r) EvConsuming None)
            (upd_queue r (\<lambda>q. q\<lparr>q_consumerTag := Some tag\<rparr>) w))"

section \<open>queue.ts: delivery, ack and nack\<close>

definition parseMessage :: "runtime \<Rightarrow> message \<Rightarrow> js_error + jsval" where
  "parseMessage rt msg =
     (if m_contentType msg = Some ''application/json''
      then (case JSON_parse rt (m_content msg) of
              None \<Rightarrow> Inl (SyntaxError ''Unexpected token in JSON'')
            | Some v \<Rightarrow> Inr v)
      else Inr (JBuffer (m_content msg)))"

text \<open>\<open>Queue.encodeMessage\<close>: \<open>Buffer.from(JSON.stringify(message))\<close> throws when
  \<open>JSON.stringify\<close> returns \<open>undefined\<close>.\<close>

definition Queue_encodeMessage :: "runtime \<Rightarrow> jsval \<Rightarrow> string option \<Rightarrow> js_error + string" where
  "Queue_encodeMessage rt message contentType =
     (if contentType = Some ''application/json''
      then (case JSON_stringify rt message of
              None \<Rightarrow> Inl (TypeError ''The first argument must be of type string'')
            | Some s \<Rightarrow> Inr s)
      else (case message of
              JBuffer b \<Rightarrow> Inr b
            | _ \<Rightarrow> Inl (Error ''Unsupported message type for encoding'')))"

definition channel_of :: "world \<Rightarrow> qref \<Rightarrow> chan option" where
  "channel_of w r = (case heap w r of None \<Rightarrow> None | Some q \<Rightarrow> q_channel q)"

definition onMessage :: "runtime \<Rightarrow> qref \<Rightarrow> consumer \<Rightarrow> message option \<Rightarrow> world \<Rightarrow> js_error + world" where
  "onMessage rt r callback msg w =
     (case msg of
        None \<Rightarrow> Inr w
      | Some m \<Rightarrow>
          (case parseMessage rt m of
             Inl e \<Rightarrow> Inl e
           | Inr data \<Rightarrow>
               if \<not> truthy data then Inr w
               else (case callback of
                       OnReply \<Rightarrow> onReply rt data m w
                     | Callback f \<Rightarrow> Inr (log (Deliver r f data m) w))))"

definition ack :: "runtime \<Rightarrow> qref \<Rightarrow> message \<Rightarrow> jsval \<Rightarrow> world \<Rightarrow> js_error + world" where
  "ack rt r msg reply w =
     (if truthy_str (m_replyTo msg) \<and> truthy_str (m_correlationId msg)
      then
        (case Queue_encodeMessage rt reply (m_contentType msg) of
           Inl e \<Rightarrow> Inl e
         | Inr buffer \<Rightarrow>
             (case channel_of w r of
                None \<Rightarrow> Inl (TypeError ''Cannot read properties of undefined'')
              | Some ch \<Rightarrow>
                  Inr (log (Ack ch msg)
                        (log (Publish ch [] (m_replyTo msg) buffer
                                (no_publish_options\<lparr>po_correlationId := m_correlationId msg,
                                   po_contentType := m_contentType msg,
                                   po_undefined := [''contentType'']\<rparr>)) w))))
      else
        (case channel_of w r of
           None \<Rightarrow> Inl (TypeError ''Cannot read properties of undefined'')
         | Some ch \<Rightarrow> Inr (log (Ack ch msg) w)))"

definition nack :: "qref \<Rightarrow> message \<Rightarrow> NackOptions \<Rightarrow> world \<Rightarrow> js_error + world" where
  "nack r msg opts w =
     (case channel_of w r of
        None \<Rightarrow> Inl (TypeError ''Cannot read properties of undefined'')
      | Some ch \<Rightarrow>
          Inr (log (Nack ch msg
                      (case no_allUpTo opts of None \<Rightarrow> False | Some b \<Rightarrow> b)
                      (case no_requeue opts of None \<Rightarrow> True | Some b \<Rightarrow> b)) w))"

section \<open>The environment\<close>

text \<open>
  A callback comes back only if it was handed out; the callbacks of requests and of
  \<open>setImmediate\<close> and the continuations of promises come back once. \<open>ack\<close> and \<open>nack\<close>
  exist for a message that was delivered to the consumer. Every input is recorded in the
  trace before its handler runs.
\<close>

definition take_token :: "token \<Rightarrow> world \<Rightarrow> world" where
  "take_token t w = w\<lparr>outstanding := remove1 t (outstanding w)\<rparr>"

definition delivered :: "world \<Rightarrow> nat \<Rightarrow> message \<Rightarrow> bool" where
  "delivered w n m =
     list_ex (\<lambda>e. case e of Deliver r f d m' \<Rightarrow> r = NewQueue n \<and> m' = m | _ \<Rightarrow> False) (trace w)"

definition connected_before :: "world \<Rightarrow> bool" where
  "connected_before w =
     list_ex (\<lambda>e. case e of CreateChannel c t \<Rightarrow> t = OnChannel | _ \<Rightarrow> False) (trace w)"

definition enabled :: "input \<Rightarrow> world \<Rightarrow> bool" where
  "enabled i w =
     (case i of
        CallConnect c \<Rightarrow> \<not> connected_before w
      | CallPublish m options \<Rightarrow> True
      | CallQueue options \<Rightarrow> True
      | CallConsume n f options \<Rightarrow> n < allocated w
      | CallAck n m reply \<Rightarrow> delivered w n m
      | CallNack n m options \<Rightarrow> delivered w n m
      | ChannelCreated err chan \<Rightarrow> OnChannel \<in> set (outstanding w)
      | ExchangeAsserted err \<Rightarrow> OnExchange \<in> set (outstanding w)
      | ChannelClosed \<Rightarrow> OnChannelClose \<in> set (outstanding w)
      | ChannelDrained \<Rightarrow> OnChannelDrain \<in> set (outstanding w)
      | ImmediateRan \<Rightarrow> Immediate \<in> set (outstanding w)
      | QueueChannelCreated r err chan \<Rightarrow> OnQueueChannel r \<in> set (outstanding w)
      | QueueAsserted r err name \<Rightarrow> OnQueue r \<in> set (outstanding w)
      | QueueChannelClosed r \<Rightarrow> OnQueueChannelClose r \<in> set (outstanding w)
      | ConsumeStarted r err tag \<Rightarrow> OnConsume r \<in> set (outstanding w)
      | Delivery r c m \<Rightarrow> OnMessage r c \<in> set (outstanding w)
      | BindDone n i err \<Rightarrow> OnBind n i \<in> set (outstanding w)
      | BoundThen n \<Rightarrow> ThenBound n \<in> set (outstanding w)
      | BindCatch n e \<Rightarrow> CatchBail n e \<in> set (outstanding w))"

definition handle :: "runtime \<Rightarrow> input \<Rightarrow> world \<Rightarrow> js_error + world" where
  "handle rt i w =
     (case i of
        CallConnect c \<Rightarrow> Inr (connect c w)
      | CallPublish m options \<Rightarrow> publish rt m options w
      | CallQueue options \<Rightarrow> Inr (createQueue options w)
      | CallConsume n f options \<Rightarrow> Inr (consume (NewQueue n) (Callback f) options w)
      | CallAck n m reply \<Rightarrow> ack rt (NewQueue n) m reply w
      | CallNack n m options \<Rightarrow> nack (NewQueue n) m options w
      | ChannelCreated err chan \<Rightarrow> onChannel rt err chan (take_token OnChannel w)
      | ExchangeAsserted err \<Rightarrow> onExchange rt err (take_token OnExchange w)
      | ChannelClosed \<Rightarrow>
          Inr (bail (Some (Error ''Channel closed'')) (take_token OnChannelClose w))
      | ChannelDrained \<Rightarrow> Inr (onDrain w)
      | ImmediateRan \<Rightarrow> Inr (onImmediate (take_token Immediate w))
      | QueueChannelCreated r err chan \<Rightarrow>
          Inr (Queue_onChannel r err chan (take_token (OnQueueChannel r) w))
      | QueueAsserted r err name \<Rightarrow> Queue_onQueue rt r err name (take_token (OnQueue r) w)
      | QueueChannelClosed r \<Rightarrow>
          Inr (Queue_bail r (Some (Error ''Channel closed'')) (take_token (OnQueueChannelClose r) w))
      | ConsumeStarted r err tag \<Rightarrow> Inr (onConsume r err tag (take_token (OnConsume r) w))
      | Delivery r c m \<Rightarrow> onMessage rt r c m w
      | BindDone n i err \<Rightarrow> Inr (onBind n i err (take_token (OnBind n i) w))
      | BoundThen n \<Rightarrow>
          Inr (log (Emit (TheQueue (NewQueue n)) EvBound None) (take_token (ThenBound n) w))
      | BindCatch n e \<Rightarrow> Inr (bail (Some e) (take_token (CatchBail n e) w)))"

definition step :: "runtime \<Rightarrow> input \<Rightarrow> world \<Rightarrow> (js_error + world) option" where
  "step rt i w = (if enabled i w then Some (handle rt i (log (Received i) w)) else None)"

text \<open>The worlds that a constructed exchange can reach; a handler that throws ends the run.\<close>

inductive reachable :: "runtime \<Rightarrow> world \<Rightarrow> world \<Rightarrow> bool" for rt :: runtime and w0 :: world where
  reach_start: "reachable rt w0 w0"
| reach_step: "reachable rt w0 w \<Longrightarrow> step rt i w = Some (Inr w') \<Longrightarrow> reachable rt w0 w'"

fun run :: "runtime \<Rightarrow> input list \<Rightarrow> world \<Rightarrow> (js_error + world) option" where
  "run rt [] w = Some (Inr w)"
| "run rt (i # is) w =
     (case step rt i w of
        None \<Rightarrow> None
      | Some (Inl e) \<Rightarrow> Some (Inl e)
      | Some (Inr w') \<Rightarrow> run rt is w')"

section \<open>The legacy modules\<close>

text \<open>
  The repository keeps the modules that the TypeScript files rewrite; they are modelled
  where they differ. The delivery handler of the legacy queue module differs
  in \<open>parseMessage\<close>, which catches the SyntaxError and emits "error" on the queue. An
  EventEmitter throws the error when "error" has no listener: \<open>listening\<close> says whether the
  caller registered one. The consumer \<open>OnReply\<close> stands for the \<open>onReply\<close> of \<open>exchange.ts\<close>.
\<close>

definition parseMessage_legacy ::
  "runtime \<Rightarrow> bool \<Rightarrow> qref \<Rightarrow> message \<Rightarrow> world \<Rightarrow> js_error + (jsval \<times> world)" where
  "parseMessage_legacy rt listening r msg w =
     (if m_contentType msg = Some ''application/json''
      then (case JSON_parse rt (m_content msg) of
              Some v \<Rightarrow> Inr (v, w)
            | None \<Rightarrow>
                if listening
                then Inr (JUndefined,
                          log (Emit (TheQueue r) EvError
                                 (Some (Error ''unable to parse message as JSON''))) w)
                else Inl (Error ''unable to parse message as JSON''))
      else Inr (JBuffer (m_content msg), w))"

definition onMessage_legacy ::
  "runtime \<Rightarrow> bool \<Rightarrow> qref \<Rightarrow> consumer \<Rightarrow> message \<Rightarrow> world \<Rightarrow> js_error + world" where
  "onMessage_legacy rt listening r callback msg w =
     (case parseMessage_legacy rt listening r msg w of
        Inl e \<Rightarrow> Inl e
      | Inr (data, w1) \<Rightarrow>
          if \<not> truthy data then Inr w1
          else (case callback of
                  OnReply \<Rightarrow> onReply rt data msg w1
                | Callback f \<Rightarrow> Inr (log (Deliver r f data msg) w1)))"

text \<open>
  The keys that \<open>createQueue\<close> of the legacy exchange module gives to \<open>bindQueue\<close>,
  \<open>options.keys || [options.key]\<close>: the array when there is one, also when it is empty,
  and otherwise the single key, which is \<open>undefined\<close> when none was given. Nothing is
  filtered out.
\<close>

definition bind_keys_of_legacy :: "QueueOptions \<Rightarrow> string option list" where
  "bind_keys_of_legacy options =
     (case qo_keys options of Some ks \<Rightarrow> map Some ks | None \<Rightarrow> [qo_key options])"

section \<open>jackrabbit.ts: the connection manager\<close>









section \<open>Runs from a constructed exchange\<close>

definition scenario ::
  "runtime \<Rightarrow> string option \<Rightarrow> string option \<Rightarrow> ExchangeOptions \<Rightarrow> input list
     \<Rightarrow> (js_error + world) option" where
  "scenario rt name type options ins =
     (case Exchange_constructor name type options of
        Inl e \<Rightarrow> Some (Inl e)
      | Inr w \<Rightarrow> run rt ins w)"

definition trace_of :: "(js_error + world) option \<Rightarrow> effect list" where
  "trace_of r = (case r of Some (Inr w) \<Rightarrow> trace w | _ \<Rightarrow> [])"

definition thrown_by :: "(js_error + world) option \<Rightarrow> js_error option" where
  "thrown_by r = (case r of Some (Inl e) \<Rightarrow> Some e | _ \<Rightarrow> None)"

text \<open>The nameless exchange built with \<open>noReply\<close>, as the constructor leaves it.\<close>

definition idle_world :: world where
  "idle_world =
     \<lparr> exchange =
         \<lparr> x_name = [], x_type = ''direct'',
           x_options = DEFAULT_EXCHANGE_OPTIONS\<lparr>xo_noReply := Some True\<rparr>,
           x_ready = False, x_connection = None, x_channel = None, x_publishing = 0,
           x_replyQueue = None, x_pendingReplies = Map.empty, x_onceReady = [] \<rparr>,
       heap = Map.empty, allocated = 0, bindings = Map.empty, outstanding = [],
       trace = [], v4_calls = 0, publish_calls = 0 \<rparr>"

definition world_of :: "(js_error + world) option \<Rightarrow> world" where
  "world_of r = (case r of Some (Inr w) \<Rightarrow> w | _ \<Rightarrow> idle_world)"

text \<open>A queue named "q" made by the nameless exchange, connected and consuming with
  callback 3 on channel 2.\<close>

definition consuming :: "input list" where
  "consuming =
     [CallConnect 7, ChannelCreated None 1,
      CallQueue (no_queue_options\<lparr>qo_name := Some ''q''\<rparr>),
      CallConsume 0 3
        \<lparr>co_consumerTag = None, co_noAck = None, co_exclusive = None, co_priority = None,
          co_undefined = []\<rparr>,
      QueueChannelCreated (NewQueue 0) None 2, QueueAsserted (NewQueue 0) None ''q'',
      ConsumeStarted (NewQueue 0) None ''ctag'']"

definition consuming_world :: world where
  "consuming_world =
     world_of (scenario sample_runtime (Some []) (Some ''direct'')
                 (no_exchange_options\<lparr>xo_noReply := Some True\<rparr>) consuming)"

definition json_message :: "string \<Rightarrow> message" where
  "json_message body =
     \<lparr> m_content = body, m_contentType = Some ''application/json'',
       m_replyTo = None, m_correlationId = None, m_routingKey = ''q'' \<rparr>"

definition raw_message :: "string \<Rightarrow> message" where
  "raw_message body =
     \<lparr> m_content = body, m_contentType = Some ''application/octet-stream'',
       m_replyTo = None, m_correlationId = None, m_routingKey = ''q'' \<rparr>"

text \<open>The bytes that \<open>sendMessage\<close> gives to \<open>channel.publish\<close>, or the error of the
  conversion.\<close>

definition encoded :: "runtime \<Rightarrow> jsval \<Rightarrow> PublishOptions \<Rightarrow> js_error + string" where
  "encoded rt message options =
     to_Buffer rt (Exchange_encodeMessage rt message
       (po_contentType (extend_PublishOptions DEFAULT_PUBLISH_OPTIONS options)))"

text \<open>A message that asks for a reply, and a reply with correlation id \<open>i\<close>.\<close>

definition request :: "string \<Rightarrow> string \<Rightarrow> message" where
  "request ct body =
     \<lparr> m_content = body, m_contentType = Some ct,
       m_replyTo = Some ''amq.gen-1'', m_correlationId = Some ''u'', m_routingKey = ''q'' \<rparr>"


text \<open>The exchange amq.direct with its reply queue, up to its "ready"; then with one
  publish that waits for a reply.\<close>

definition becoming_ready :: "input list" where
  "becoming_ready =
     [CallConnect 7, ChannelCreated None 1, QueueChannelCreated ReplyQueue None 2,
      QueueAsserted ReplyQueue None ''amq.gen-1'']"

definition ready_world :: world where
  "ready_world =
     world_of (scenario sample_runtime None (Some ''direct'') no_exchange_options becoming_ready)"














text \<open>
  What has to come before the exchange's "ready": the callback of \<open>createChannel\<close> came
  back without an error; the exchange is declared, or is one that is not declared (a
  default exchange under its default name, or the nameless one); the reply queue, when
  there is one, has emitted its own "ready".
\<close>

fun is_channel_open :: "effect \<Rightarrow> bool" where
  "is_channel_open (Received (ChannelCreated None chan)) = True"
| "is_channel_open e = False"

definition channel_opened :: "effect list \<Rightarrow> bool" where
  "channel_opened tr = list_ex is_channel_open tr"

definition declared :: "Exchange \<Rightarrow> effect list \<Rightarrow> bool" where
  "declared x tr =
     (isDefault (x_name x) (x_type x) \<or> isNameless (Some (x_name x))
      \<or> Received (ExchangeAsserted None) \<in> set tr)"

definition reply_queue_ready :: "Exchange \<Rightarrow> effect list \<Rightarrow> bool" where
  "reply_queue_ready x tr =
     (x_replyQueue x = None \<or> Emit (TheQueue ReplyQueue) EvReady None \<in> set tr)"

definition prerequisites :: "Exchange \<Rightarrow> effect list \<Rightarrow> bool" where
  "prerequisites x tr = (channel_opened tr \<and> declared x tr \<and> reply_queue_ready x tr)"

text \<open>
  The invariant of the readiness gate, and two relations between a world and a later one
  that the proofs use: \<open>grows\<close>, the trace is extended and the identity of the exchange
  is kept; \<open>quiet\<close>, moreover "ready" is not emitted on the exchange and neither the
  callback of \<open>assertExchange\<close> nor the listener \<open>isReady\<close> is added.
\<close>

definition ready_guarded :: "world \<Rightarrow> bool" where
  "ready_guarded w =
     (\<forall>pre post. trace w = pre @ Emit TheExchange EvReady None # post
        \<longrightarrow> prerequisites (exchange w) pre)"

definition gate :: "world \<Rightarrow> bool" where
  "gate w =
     (ready_guarded w
      \<and> (x_ready (exchange w) \<longrightarrow> Emit TheExchange EvReady None \<in> set (trace w))
      \<and> (OnExchange \<in> set (outstanding w) \<longrightarrow> channel_opened (trace w))
      \<and> (\<forall>r q. heap w r = Some q \<longrightarrow> IsReady \<in> set (q_onceReady q) \<longrightarrow>
            r = ReplyQueue \<and> channel_opened (trace w) \<and> declared (exchange w) (trace w))
      \<and> (x_replyQueue (exchange w) = None \<or> x_replyQueue (exchange w) = Some ReplyQueue))"

definition grows :: "world \<Rightarrow> world \<Rightarrow> bool" where
  "grows w w' =
     ((\<exists>new. trace w' = trace w @ new)
      \<and> x_name (exchange w') = x_name (exchange w)
      \<and> x_type (exchange w') = x_type (exchange w)
      \<and> x_replyQueue (exchange w') = x_replyQueue (exchange w))"

definition quiet :: "world \<Rightarrow> world \<Rightarrow> bool" where
  "quiet w w' =
     ((\<exists>new. trace w' = trace w @ new \<and> Emit TheExchange EvReady None \<notin> set new)
      \<and> x_name (exchange w') = x_name (exchange w)
      \<and> x_type (exchange w') = x_type (exchange w)
      \<and> x_replyQueue (exchange w') = x_replyQueue (exchange w)
      \<and> (x_ready (exchange w') \<longrightarrow> x_ready (exchange w))
      \<and> (OnExchange \<in> set (outstanding w') \<longrightarrow> OnExchange \<in> set (outstanding w))
      \<and> (\<forall>r q'. heap w' r = Some q' \<longrightarrow> IsReady \<in> set (q_onceReady q') \<longrightarrow>
            (\<exists>q. heap w r = Some q \<and> IsReady \<in> set (q_onceReady q))))"

definition succeeds :: "(js_error + world) option \<Rightarrow> bool" where
  "succeeds r = (case r of Some (Inr w) \<Rightarrow> True | _ \<Rightarrow> False)"

definition constructed_world :: world where
  "constructed_world =
     world_of (scenario sample_runtime None (Some ''direct'') no_exchange_options [])"

subsection \<open>Binding: what a world says about one queue\<close>

text \<open>
  For the queue with reference \<open>n\<close>: the effects and the callbacks that are about its
  binding, how often its deferred binding listens on a queue, and the number of keys that
  will be bound. \<open>promises_ok\<close> relates the promises of the binds to the trace and to the
  callbacks handed out; \<open>promises_pre\<close> is the same before \<open>Promise_all\<close> has looked at
  them; \<open>binv\<close> is what holds in every world; \<open>unchanged\<close> relates two worlds that differ
  in nothing that is about the binding of queue \<open>n\<close>.
\<close>

definition bound :: "nat \<Rightarrow> effect" where
  "bound n = Emit (TheQueue (NewQueue n)) EvBound None"

fun about :: "nat \<Rightarrow> effect \<Rightarrow> bool" where
  "about n (Emit (TheQueue (NewQueue m)) EvBound err) = (m = n)"
| "about n (Received (BindDone m i err)) = (m = n)"
| "about n (Received (BindCatch m e)) = (m = n)"
| "about n e = False"

fun concerns :: "nat \<Rightarrow> token \<Rightarrow> bool" where
  "concerns n (OnBind m i) = (m = n)"
| "concerns n (ThenBound m) = (m = n)"
| "concerns n (CatchBail m e) = (m = n)"
| "concerns n t = False"

definition listens :: "nat \<Rightarrow> world \<Rightarrow> qref \<Rightarrow> nat" where
  "listens n w r =
     (case heap w r of None \<Rightarrow> 0 | Some q \<Rightarrow> count_list (q_onceReady q) (BindOnReady n))"

definition keys_of :: "nat \<Rightarrow> world \<Rightarrow> nat option" where
  "keys_of n w = map_option (\<lambda>q. length (bind_keys_of (q_options q))) (heap w (NewQueue n))"

definition bound_guarded :: "nat \<Rightarrow> nat \<Rightarrow> effect list \<Rightarrow> bool" where
  "bound_guarded n k tr =
     (\<forall>pre post. tr = pre @ bound n # post \<longrightarrow>
        (\<forall>i<k. Received (BindDone n i None) \<in> set pre))"

definition closes_after_catch :: "nat \<Rightarrow> effect list \<Rightarrow> bool" where
  "closes_after_catch n tr =
     (\<forall>e. Received (BindCatch n e) \<in> set tr \<longrightarrow> Emit TheExchange EvClose (Some e) \<in> set tr)"

definition promises_ok :: "nat \<Rightarrow> world \<Rightarrow> binding \<Rightarrow> bool" where
  "promises_ok n w b =
     (keys_of n w = Some (length (b_promises b))
      \<and> (\<forall>i. count_list (outstanding w) (OnBind n i)
              \<le> (if i < length (b_promises b) \<and> b_promises b ! i = Pending then 1 else 0))
      \<and> (\<forall>i err. Received (BindDone n i err) \<in> set (trace w) \<longrightarrow>
              i < length (b_promises b)
              \<and> b_promises b ! i = (case err of None \<Rightarrow> Fulfilled | Some e \<Rightarrow> Rejected e))
      \<and> (\<forall>i<length (b_promises b). b_promises b ! i = Fulfilled \<longrightarrow>
              Received (BindDone n i None) \<in> set (trace w))
      \<and> (b_settled b \<longleftrightarrow>
              first_rejected (b_promises b) \<noteq> None \<or> list_all (\<lambda>p. p = Fulfilled) (b_promises b))
      \<and> count_list (outstanding w) (ThenBound n) + count_list (trace w) (bound n)
            = (if list_all (\<lambda>p. p = Fulfilled) (b_promises b) then 1 else 0)
      \<and> (first_rejected (b_promises b) \<noteq> None \<longrightarrow>
            (\<exists>e. CatchBail n e \<in> set (outstanding w) \<or> Received (BindCatch n e) \<in> set (trace w)))
      \<and> bound_guarded n (length (b_promises b)) (trace w))"

definition promises_pre :: "nat \<Rightarrow> world \<Rightarrow> binding \<Rightarrow> bool" where
  "promises_pre n w b =
     (keys_of n w = Some (length (b_promises b))
      \<and> (\<forall>i. count_list (outstanding w) (OnBind n i)
              \<le> (if i < length (b_promises b) \<and> b_promises b ! i = Pending then 1 else 0))
      \<and> (\<forall>i err. Received (BindDone n i err) \<in> set (trace w) \<longrightarrow>
              i < length (b_promises b)
              \<and> b_promises b ! i = (case err of None \<Rightarrow> Fulfilled | Some e \<Rightarrow> Rejected e))
      \<and> (\<forall>i<length (b_promises b). b_promises b ! i = Fulfilled \<longrightarrow>
              Received (BindDone n i None) \<in> set (trace w))
      \<and> (b_settled b \<longrightarrow>
              first_rejected (b_promises b) \<noteq> None \<or> list_all (\<lambda>p. p = Fulfilled) (b_promises b))
      \<and> count_list (outstanding w) (ThenBound n) + count_list (trace w) (bound n)
            = (if b_settled b \<and> list_all (\<lambda>p. p = Fulfilled) (b_promises b) then 1 else 0)
      \<and> (b_settled b \<and> first_rejected (b_promises b) \<noteq> None \<longrightarrow>
            (\<exists>e. CatchBail n e \<in> set (outstanding w) \<or> Received (BindCatch n e) \<in> set (trace w)))
      \<and> bound_guarded n (length (b_promises b)) (trace w))"

definition binv :: "nat \<Rightarrow> world \<Rightarrow> bool" where
  "binv n w =
     ((allocated w \<le> n \<longrightarrow> keys_of n w = None \<and> bindings w n = None
          \<and> (\<forall>r. listens n w r = 0))
      \<and> (\<forall>r. listens n w r \<le> (if r = NewQueue n \<and> bindings w n = None then 1 else 0))
      \<and> (bindings w n = None \<longrightarrow>
            (\<forall>t. concerns n t \<longrightarrow> t \<notin> set (outstanding w))
            \<and> (\<forall>e. about n e \<longrightarrow> e \<notin> set (trace w)))
      \<and> (\<forall>b. bindings w n = Some b \<longrightarrow> promises_ok n w b)
      \<and> closes_after_catch n (trace w))"

definition unchanged :: "nat \<Rightarrow> world \<Rightarrow> world \<Rightarrow> bool" where
  "unchanged n w w' =
     ((\<exists>new. trace w' = trace w @ new \<and> filter (about n) new = [])
      \<and> (\<forall>t. concerns n t \<longrightarrow> count_list (outstanding w') t = count_list (outstanding w) t)
      \<and> bindings w' n = bindings w n
      \<and> (allocated w' \<le> n \<longleftrightarrow> allocated w \<le> n)
      \<and> (\<forall>r. listens n w' r \<le> listens n w r)
      \<and> keys_of n w' = keys_of n w)"

text \<open>A topic exchange named "ex" and a queue asked for with the keys "a" and "b": both
  binds succeed, the second one first, and the continuation of \<open>Promise.all\<close> runs. In
  \<open>an_empty_key\<close> the keys asked for are "a" and the empty string.\<close>

definition two_keys :: "input list" where
  "two_keys =
     [CallConnect 7, ChannelCreated None 1,
      CallQueue (no_queue_options\<lparr>qo_keys := Some [''a'', ''b'']\<rparr>),
      ExchangeAsserted None, QueueChannelCreated (NewQueue 0) None 3,
      QueueAsserted (NewQueue 0) None ''q'',
      BindDone 0 1 None, BindDone 0 0 None, BoundThen 0]"

definition an_empty_key :: "input list" where
  "an_empty_key =
     [CallConnect 7, ChannelCreated None 1,
      CallQueue (no_queue_options\<lparr>qo_keys := Some [''a'', []]\<rparr>),
      ExchangeAsserted None, QueueChannelCreated (NewQueue 0) None 3,
      QueueAsserted (NewQueue 0) None ''q'',
      BindDone 0 0 None, BoundThen 0]"

definition topic_world :: world where
  "topic_world =
     world_of (scenario sample_runtime (Some ''ex'') (Some ''topic'') no_exchange_options [])"

definition bound_world :: world where
  "bound_world =
     world_of (scenario sample_runtime (Some ''ex'') (Some ''topic'') no_exchange_options two_keys)"

definition bound_queue :: Queue where
  "bound_queue = the (heap bound_world (NewQueue 0))"

text \<open>The same exchange and a queue asked for with no key at all, up to the point where
  the queue has its channel; then the callback of \<open>assertQueue\<close> and the continuation of
  \<open>Promise.all\<close>.\<close>

definition keyless :: "input list" where
  "keyless =
     [CallConnect 7, ChannelCreated None 1, CallQueue no_queue_options,
      ExchangeAsserted None, QueueChannelCreated (NewQueue 0) None 3]"

definition keyless_world :: world where
  "keyless_world =
     world_of (scenario sample_runtime (Some ''ex'') (Some ''topic'') no_exchange_options keyless)"

definition keyless_queue :: Queue where
  "keyless_queue = the (heap keyless_world (NewQueue 0))"

text \<open>The part of a trace that is about binding: the calls of \<open>bindQueue\<close>, their callbacks,
  the continuations and "bound".\<close>

fun is_binding :: "effect \<Rightarrow> bool" where
  "is_binding (BindQueue ch q x key) = True"
| "is_binding (Received (BindDone n i err)) = True"
| "is_binding (Received (BoundThen n)) = True"
| "is_binding (Received (BindCatch n e)) = True"
| "is_binding (Emit e EvBound err) = True"
| "is_binding e = False"

section \<open>Construction of an exchange\<close>

text \<open>
  C8. With a type among direct, fanout and topic and no name, the exchange is named
  \<open>amq.\<close> followed by the type; a non-empty name is kept as it is, for every non-empty
  type; the empty name stays empty, for every non-empty type; a missing or empty type is
  the error "missing exchange type". The constructor calls nothing: where it succeeds the
  trace and the callbacks handed out are empty.
\<close>

theorem Exchange_constructor_name:
  "(t \<in> {''direct'', ''fanout'', ''topic''} \<longrightarrow>
      (\<exists>w. Exchange_constructor None (Some t) options = Inr w
           \<and> x_name (exchange w) = ''amq.'' @ t \<and> trace w = [] \<and> outstanding w = []))
   \<and> (n \<noteq> [] \<and> t \<noteq> [] \<longrightarrow>
      (\<exists>w. Exchange_constructor (Some n) (Some t) options = Inr w
           \<and> x_name (exchange w) = n \<and> trace w = [] \<and> outstanding w = []))
   \<and> (t \<noteq> [] \<longrightarrow>
      (\<exists>w. Exchange_constructor (Some []) (Some t) options = Inr w
           \<and> x_name (exchange w) = [] \<and> trace w = [] \<and> outstanding w = []))
   \<and> Exchange_constructor name None options = Inl (Error ''missing exchange type'')
   \<and> Exchange_constructor name (Some []) options = Inl (Error ''missing exchange type'')"
  by (auto simp: Exchange_constructor_def resolve_name_def isNameless_def isDefaultType_def
      DEFAULT_EXCHANGES_def Let_def)

theorem Exchange_constructor_name_witness:
  "''fanout'' \<in> {''direct'', ''fanout'', ''topic''}
   \<and> ''foobar.direct'' \<noteq> [] \<and> ''direct'' \<noteq> []
   \<and> (\<exists>w. Exchange_constructor None (Some ''fanout'') no_exchange_options = Inr w
        \<and> x_name (exchange w) = ''amq.fanout'' \<and> trace w = [] \<and> outstanding w = [])
   \<and> (\<exists>w. Exchange_constructor (Some ''foobar.direct'') (Some ''direct'') no_exchange_options = Inr w
        \<and> x_name (exchange w) = ''foobar.direct'' \<and> trace w = [] \<and> outstanding w = [])
   \<and> (\<exists>w. Exchange_constructor (Some []) (Some ''direct'') no_exchange_options = Inr w
        \<and> x_name (exchange w) = [] \<and> trace w = [] \<and> outstanding w = [])"
  using Exchange_constructor_name [of "''fanout''" no_exchange_options "''foobar.direct''"]
    Exchange_constructor_name [of "''direct''" no_exchange_options "''foobar.direct''"]
  by simp

lemma idle_world_constructed:
  "Exchange_constructor (Some []) (Some ''direct'') (no_exchange_options\<lparr>xo_noReply := Some True\<rparr>)
     = Inr idle_world"
  by (simp add: Exchange_constructor_def resolve_name_def isNameless_def idle_world_def
      extend_ExchangeOptions_def DEFAULT_EXCHANGE_OPTIONS_def no_exchange_options_def
      extend_key_def)

lemma consuming_world_channel: "channel_of consuming_world (NewQueue 0) = Some 2"
  unfolding consuming_world_def by code_simp




section \<open>Delivery to the consumer\<close>

text \<open>
  C10, as the code has it. A message of content type application/json whose body decodes
  to a falsy value (\<open>null\<close>, \<open>false\<close>, \<open>0\<close>, the empty string) is dropped: the handler
  returns with the world unchanged, so the consumer is not called and nothing is acked or
  nacked. A message of any other content type is handed to the consumer as its Buffer,
  which is truthy whatever its length.
\<close>

theorem onMessage_drops_falsy:
  "(m_contentType m = Some ''application/json'' \<and> JSON_parse rt (m_content m) = Some v \<and> \<not> truthy v
      \<longrightarrow> onMessage rt r callback (Some m) w = Inr w)
   \<and> (m_contentType m \<noteq> Some ''application/json''
      \<longrightarrow> onMessage rt r (Callback f) (Some m) w
            = Inr (log (Deliver r f (JBuffer (m_content m)) m) w))"
  by (simp add: onMessage_def parseMessage_def)

theorem onMessage_drops_falsy_witness:
  "m_contentType (json_message ''null'') = Some ''application/json''
   \<and> JSON_parse sample_runtime (m_content (json_message ''null'')) = Some JNull
   \<and> \<not> truthy JNull
   \<and> onMessage sample_runtime (NewQueue 0) (Callback 3) (Some (json_message ''null'')) consuming_world
       = Inr consuming_world
   \<and> m_contentType (raw_message ''abc'') \<noteq> Some ''application/json''
   \<and> onMessage sample_runtime (NewQueue 0) (Callback 3) (Some (raw_message ''abc'')) consuming_world
       = Inr (log (Deliver (NewQueue 0) 3 (JBuffer ''abc'') (raw_message ''abc'')) consuming_world)"
  using onMessage_drops_falsy [of "json_message ''null''" sample_runtime JNull "NewQueue 0"
      "Callback 3" consuming_world]
    onMessage_drops_falsy [of "raw_message ''abc''" sample_runtime JNull "NewQueue 0"
      "Callback 3" consuming_world 3]
  by (simp add: json_message_def raw_message_def sample_runtime_def sample_parse_def)

text \<open>The claim as written fails on an empty raw body: the consumer is called with the
  empty Buffer.\<close>

theorem empty_raw_body_is_delivered:
  "last (trace_of (scenario sample_runtime (Some []) (Some ''direct'')
       (no_exchange_options\<lparr>xo_noReply := Some True\<rparr>)
       (consuming @ [Delivery (NewQueue 0) (Callback 3) (Some (raw_message []))])))
     = Deliver (NewQueue 0) 3 (JBuffer []) (raw_message [])"
  by code_simp

text \<open>
  C6. In \<open>queue.ts\<close> nothing catches the SyntaxError of \<open>JSON.parse\<close>: a delivery whose
  body is the text \<open>{\<close> leaves the delivery handler as an exception.
\<close>

theorem malformed_json_throws:
  "thrown_by (scenario sample_runtime (Some []) (Some ''direct'')
       (no_exchange_options\<lparr>xo_noReply := Some True\<rparr>)
       (consuming @ [Delivery (NewQueue 0) (Callback 3) (Some (json_message ''{''))]))
   = Some (SyntaxError ''Unexpected token in JSON'')"
  by code_simp

text \<open>The same for every runtime and message; and the legacy handler, which reports the
  failure on the queue and drops the message when "error" has a listener.\<close>

lemma onMessage_throws:
  "m_contentType m = Some ''application/json'' \<Longrightarrow> JSON_parse rt (m_content m) = None \<Longrightarrow>
   onMessage rt r callback (Some m) w = Inl (SyntaxError ''Unexpected token in JSON'')"
  by (simp add: onMessage_def parseMessage_def)

lemma onMessage_legacy_reports:
  "m_contentType m = Some ''application/json'' \<Longrightarrow> JSON_parse rt (m_content m) = None \<Longrightarrow>
   onMessage_legacy rt True r callback m w =
     Inr (log (Emit (TheQueue r) EvError (Some (Error ''unable to parse message as JSON''))) w)"
  by (simp add: onMessage_legacy_def parseMessage_legacy_def)

lemma onMessage_legacy_unheard:
  "m_contentType m = Some ''application/json'' \<Longrightarrow> JSON_parse rt (m_content m) = None \<Longrightarrow>
   onMessage_legacy rt False r callback m w = Inl (Error ''unable to parse message as JSON'')"
  by (simp add: onMessage_legacy_def parseMessage_legacy_def)

section \<open>Acknowledgment and reply\<close>

text \<open>
  C5, as the code has it. On a queue whose channel is open: a message without \<open>replyTo\<close>
  or without \<open>correlationId\<close> is acknowledged and nothing is published; a message with
  both, when the payload can be encoded for the content type of the message, has the
  encoded payload published to the exchange with the empty name, with routing key
  \<open>replyTo\<close> and with the same correlation id and content type, and is acknowledged after
  that.
\<close>

theorem ack_acknowledges:
  assumes "channel_of w r = Some ch"
  shows "(\<not> (truthy_str (m_replyTo msg) \<and> truthy_str (m_correlationId msg)) \<longrightarrow>
            ack rt r msg reply w = Inr (log (Ack ch msg) w))
       \<and> (truthy_str (m_replyTo msg) \<and> truthy_str (m_correlationId msg)
            \<and> Queue_encodeMessage rt reply (m_contentType msg) = Inr buffer \<longrightarrow>
            (\<exists>w'. ack rt r msg reply w = Inr w' \<and>
               trace w' = trace w @
                 [Publish ch [] (m_replyTo msg) buffer
                    (no_publish_options\<lparr>po_correlationId := m_correlationId msg,
                       po_contentType := m_contentType msg,
                       po_undefined := [''contentType'']\<rparr>),
                  Ack ch msg]))"
  using assms by (auto simp: ack_def log_def)

theorem ack_acknowledges_witness:
  "channel_of consuming_world (NewQueue 0) = Some 2
   \<and> \<not> (truthy_str (m_replyTo (json_message ''1''))
          \<and> truthy_str (m_correlationId (json_message ''1'')))
   \<and> ack sample_runtime (NewQueue 0) (json_message ''1'') JUndefined consuming_world
       = Inr (log (Ack 2 (json_message ''1'')) consuming_world)
   \<and> truthy_str (m_replyTo (request ''application/json'' ''1''))
   \<and> truthy_str (m_correlationId (request ''application/json'' ''1''))
   \<and> Queue_encodeMessage sample_runtime (JStr ''a'')
         (m_contentType (request ''application/json'' ''1''))
       = Inr [CHR 0x22, CHR ''a'', CHR 0x22]
   \<and> (\<exists>w'. ack sample_runtime (NewQueue 0) (request ''application/json'' ''1'') (JStr ''a'')
              consuming_world = Inr w'
         \<and> trace w' = trace consuming_world @
             [Publish 2 [] (Some ''amq.gen-1'') [CHR 0x22, CHR ''a'', CHR 0x22]
                (no_publish_options\<lparr>po_correlationId := Some ''u'',
                   po_contentType := Some ''application/json'',
                   po_undefined := [''contentType'']\<rparr>),
              Ack 2 (request ''application/json'' ''1'')])"
  using ack_acknowledges [OF consuming_world_channel, of "json_message ''1''" sample_runtime
      JUndefined]
    ack_acknowledges [OF consuming_world_channel, of "request ''application/json'' ''1''"
      sample_runtime "JStr ''a''" "[CHR 0x22, CHR ''a'', CHR 0x22]"]
    consuming_world_channel
  by (simp add: json_message_def request_def Queue_encodeMessage_def sample_runtime_def
      sample_stringify_def)

text \<open>The claim as written fails where the payload cannot be encoded: for a message of
  content type text/plain that asks for a reply, \<open>ack("a")\<close> throws, and the message is
  neither answered nor acknowledged.\<close>

theorem ack_unsupported_payload:
  "thrown_by (scenario sample_runtime (Some []) (Some ''direct'')
       (no_exchange_options\<lparr>xo_noReply := Some True\<rparr>)
       (consuming @ [Delivery (NewQueue 0) (Callback 3) (Some (request ''text/plain'' ''ping'')),
                     CallAck 0 (request ''text/plain'' ''ping'') (JStr ''a'')]))
   = Some (Error ''Unsupported message type for encoding'')"
  by code_simp

section \<open>The pending replies\<close>







section \<open>Closing the connection manager\<close>




section \<open>Frame rules of the basic operations\<close>

lemma log_simps [simp]:
  "trace (log e w) = trace w @ [e]" "exchange (log e w) = exchange w" "heap (log e w) = heap w"
  "outstanding (log e w) = outstanding w" "bindings (log e w) = bindings w"
  "allocated (log e w) = allocated w" "v4_calls (log e w) = v4_calls w"
  "publish_calls (log e w) = publish_calls w"
  by (simp_all add: log_def)

lemma hand_out_simps [simp]:
  "trace (hand_out t w) = trace w" "exchange (hand_out t w) = exchange w"
  "heap (hand_out t w) = heap w" "outstanding (hand_out t w) = outstanding w @ [t]"
  "bindings (hand_out t w) = bindings w" "allocated (hand_out t w) = allocated w"
  "v4_calls (hand_out t w) = v4_calls w" "publish_calls (hand_out t w) = publish_calls w"
  by (simp_all add: hand_out_def)

lemma take_token_simps [simp]:
  "trace (take_token t w) = trace w" "exchange (take_token t w) = exchange w"
  "heap (take_token t w) = heap w" "outstanding (take_token t w) = remove1 t (outstanding w)"
  "bindings (take_token t w) = bindings w" "allocated (take_token t w) = allocated w"
  "v4_calls (take_token t w) = v4_calls w" "publish_calls (take_token t w) = publish_calls w"
  by (simp_all add: take_token_def)

lemma upd_exchange_simps [simp]:
  "trace (upd_exchange f w) = trace w" "exchange (upd_exchange f w) = f (exchange w)"
  "heap (upd_exchange f w) = heap w" "outstanding (upd_exchange f w) = outstanding w"
  "bindings (upd_exchange f w) = bindings w" "allocated (upd_exchange f w) = allocated w"
  "v4_calls (upd_exchange f w) = v4_calls w" "publish_calls (upd_exchange f w) = publish_calls w"
  by (simp_all add: upd_exchange_def)

lemma upd_queue_simps [simp]:
  "trace (upd_queue r f w) = trace w" "exchange (upd_queue r f w) = exchange w"
  "outstanding (upd_queue r f w) = outstanding w"
  "bindings (upd_queue r f w) = bindings w" "allocated (upd_queue r f w) = allocated w"
  "v4_calls (upd_queue r f w) = v4_calls w" "publish_calls (upd_queue r f w) = publish_calls w"
  by (simp_all add: upd_queue_def split: option.splits)

lemma heap_upd_queue:
  "heap (upd_queue r f w) r' =
     (if r' = r then map_option f (heap w r) else heap w r')"
  by (simp add: upd_queue_def split: option.splits)

lemma onDrain_simps [simp]:
  "trace (onDrain w) = trace w @ [SetImmediate]" "exchange (onDrain w) = exchange w"
  "heap (onDrain w) = heap w" "outstanding (onDrain w) = outstanding w @ [Immediate]"
  "bindings (onDrain w) = bindings w" "allocated (onDrain w) = allocated w"
  "v4_calls (onDrain w) = v4_calls w" "publish_calls (onDrain w) = publish_calls w"
  by (simp_all add: onDrain_def)

lemma Queue_connect_simps [simp]:
  "trace (Queue_connect r c w) = trace w @ [CreateChannel c (OnQueueChannel r)]"
  "exchange (Queue_connect r c w) = exchange w" "heap (Queue_connect r c w) = heap w"
  "outstanding (Queue_connect r c w) = outstanding w @ [OnQueueChannel r]"
  "bindings (Queue_connect r c w) = bindings w" "allocated (Queue_connect r c w) = allocated w"
  "v4_calls (Queue_connect r c w) = v4_calls w"
  "publish_calls (Queue_connect r c w) = publish_calls w"
  by (simp_all add: Queue_connect_def)












section \<open>Publishing before "ready"\<close>






text \<open>A key that is present with the value \<open>undefined\<close> replaces the default: with
  \<open>contentType: undefined\<close> the body is the text itself, not its JSON text.\<close>

lemma undefined_contentType_is_copied:
  "encoded sample_runtime (JStr ''a'') no_publish_options = Inr [CHR 0x22, CHR ''a'', CHR 0x22]"
  "encoded sample_runtime (JStr ''a'') (no_publish_options\<lparr>po_undefined := [''contentType'']\<rparr>)
     = Inr ''a''"
  by code_simp+

section \<open>The readiness gate\<close>

lemma grows_refl [simp]: "grows w w"
  by (simp add: grows_def)

lemma grows_trans: "grows w w1 \<Longrightarrow> grows w1 w2 \<Longrightarrow> grows w w2"
  by (auto simp: grows_def)

lemma channel_opened_append [simp]:
  "channel_opened (xs @ ys) = (channel_opened xs \<or> channel_opened ys)"
  by (simp add: channel_opened_def)

lemma channel_opened_simps [simp]:
  "channel_opened [] = False"
  "channel_opened (e # es) = (is_channel_open e \<or> channel_opened es)"
  by (simp_all add: channel_opened_def)

lemma prerequisites_mono:
  "prerequisites x tr \<Longrightarrow> prerequisites x (tr @ new)"
  by (auto simp: prerequisites_def declared_def reply_queue_ready_def)

lemma prerequisites_static:
  "x_name x' = x_name x \<Longrightarrow> x_type x' = x_type x \<Longrightarrow> x_replyQueue x' = x_replyQueue x \<Longrightarrow>
   prerequisites x' tr = prerequisites x tr"
  by (simp add: prerequisites_def declared_def reply_queue_ready_def)

lemma declared_static:
  "x_name x' = x_name x \<Longrightarrow> x_type x' = x_type x \<Longrightarrow> declared x' tr = declared x tr"
  by (simp add: declared_def)

lemma declared_mono: "declared x tr \<Longrightarrow> declared x (tr @ new)"
  by (auto simp: declared_def)

lemma ready_guarded_append:
  assumes "ready_guarded w" "trace w' = trace w @ new"
    "x_name (exchange w') = x_name (exchange w)" "x_type (exchange w') = x_type (exchange w)"
    "x_replyQueue (exchange w') = x_replyQueue (exchange w)"
    "Emit TheExchange EvReady None \<notin> set new"
  shows "ready_guarded w'"
  unfolding ready_guarded_def
proof (intro allI impI)
  fix pre post
  assume "trace w' = pre @ Emit TheExchange EvReady None # post"
  then have e: "trace w @ new = pre @ Emit TheExchange EvReady None # post"
    using assms(2) by simp
  have p: "prerequisites (exchange w') pre = prerequisites (exchange w) pre"
    using assms(3,4,5) by (rule prerequisites_static)
  from e obtain us where "(trace w = pre @ us \<and> us @ new = Emit TheExchange EvReady None # post)
      \<or> (trace w @ us = pre \<and> new = us @ Emit TheExchange EvReady None # post)"
    by (auto simp: append_eq_append_conv2)
  then show "prerequisites (exchange w') pre"
  proof
    assume a: "trace w = pre @ us \<and> us @ new = Emit TheExchange EvReady None # post"
    show ?thesis
    proof (cases us)
      case Nil
      with a assms(6) show ?thesis by auto
    next
      case (Cons u us')
      with a have "trace w = pre @ Emit TheExchange EvReady None # us'" by simp
      then show ?thesis using assms(1) p by (simp add: ready_guarded_def)
    qed
  next
    assume "trace w @ us = pre \<and> new = us @ Emit TheExchange EvReady None # post"
    then show ?thesis using assms(6) by auto
  qed
qed

lemma ready_guarded_ready:
  assumes "ready_guarded w" "prerequisites (exchange w) (trace w)"
    "trace w' = trace w @ [Emit TheExchange EvReady None]"
    "x_name (exchange w') = x_name (exchange w)" "x_type (exchange w') = x_type (exchange w)"
    "x_replyQueue (exchange w') = x_replyQueue (exchange w)"
  shows "ready_guarded w'"
  unfolding ready_guarded_def
proof (intro allI impI)
  fix pre post
  assume "trace w' = pre @ Emit TheExchange EvReady None # post"
  then have e: "trace w @ [Emit TheExchange EvReady None] = pre @ Emit TheExchange EvReady None # post"
    using assms(3) by simp
  have p: "prerequisites (exchange w') pre = prerequisites (exchange w) pre"
    using assms(4,5,6) by (rule prerequisites_static)
  show "prerequisites (exchange w') pre"
  proof (cases post rule: rev_cases)
    case Nil
    with e have "pre = trace w" by simp
    then show ?thesis using assms(2) p by simp
  next
    case (snoc post' u)
    with e have "trace w = pre @ Emit TheExchange EvReady None # post'" by simp
    then show ?thesis using assms(1) p by (simp add: ready_guarded_def)
  qed
qed

lemma quiet_refl [simp]: "quiet w w"
  by (simp add: quiet_def)

lemma quiet_trans:
  assumes "quiet w w1" "quiet w1 w2"
  shows "quiet w w2"
proof -
  from assms(1) obtain n1 where n1: "trace w1 = trace w @ n1"
      "Emit TheExchange EvReady None \<notin> set n1"
    and h1: "\<forall>r q'. heap w1 r = Some q' \<longrightarrow> IsReady \<in> set (q_onceReady q') \<longrightarrow>
            (\<exists>q. heap w r = Some q \<and> IsReady \<in> set (q_onceReady q))"
    unfolding quiet_def by blast
  from assms(2) obtain n2 where n2: "trace w2 = trace w1 @ n2"
      "Emit TheExchange EvReady None \<notin> set n2"
    and h2: "\<forall>r q'. heap w2 r = Some q' \<longrightarrow> IsReady \<in> set (q_onceReady q') \<longrightarrow>
            (\<exists>q. heap w1 r = Some q \<and> IsReady \<in> set (q_onceReady q))"
    unfolding quiet_def by blast
  have t: "trace w2 = trace w @ (n1 @ n2) \<and> Emit TheExchange EvReady None \<notin> set (n1 @ n2)"
    using n1 n2 by simp
  have h: "\<forall>r q'. heap w2 r = Some q' \<longrightarrow> IsReady \<in> set (q_onceReady q') \<longrightarrow>
            (\<exists>q. heap w r = Some q \<and> IsReady \<in> set (q_onceReady q))"
    using h1 h2 by blast
  have "x_name (exchange w2) = x_name (exchange w)" "x_type (exchange w2) = x_type (exchange w)"
    "x_replyQueue (exchange w2) = x_replyQueue (exchange w)"
    "x_ready (exchange w2) \<longrightarrow> x_ready (exchange w)"
    "OnExchange \<in> set (outstanding w2) \<longrightarrow> OnExchange \<in> set (outstanding w)"
    using assms by (simp_all add: quiet_def)
  then show ?thesis unfolding quiet_def using t h by blast
qed

lemma quiet_grows: "quiet w w' \<Longrightarrow> grows w w'"
  by (auto simp: quiet_def grows_def)

lemma gate_quiet:
  assumes "gate w" "quiet w w'"
  shows "gate w'"
proof -
  from assms(2) obtain new where n: "trace w' = trace w @ new"
      "Emit TheExchange EvReady None \<notin> set new"
    and s: "x_name (exchange w') = x_name (exchange w)" "x_type (exchange w') = x_type (exchange w)"
      "x_replyQueue (exchange w') = x_replyQueue (exchange w)"
    and r: "x_ready (exchange w') \<longrightarrow> x_ready (exchange w)"
    and o: "OnExchange \<in> set (outstanding w') \<longrightarrow> OnExchange \<in> set (outstanding w)"
    and h: "\<forall>r q'. heap w' r = Some q' \<longrightarrow> IsReady \<in> set (q_onceReady q') \<longrightarrow>
            (\<exists>q. heap w r = Some q \<and> IsReady \<in> set (q_onceReady q))"
    unfolding quiet_def by blast
  have 1: "ready_guarded w'"
    using assms(1) n s by (intro ready_guarded_append [of w w' new]) (simp_all add: gate_def)
  have 2: "x_ready (exchange w') \<longrightarrow> Emit TheExchange EvReady None \<in> set (trace w')"
    using assms(1) r n by (simp add: gate_def)
  have 3: "OnExchange \<in> set (outstanding w') \<longrightarrow> channel_opened (trace w')"
    using assms(1) o n by (simp add: gate_def)
  have d: "declared (exchange w) (trace w) \<Longrightarrow> declared (exchange w') (trace w')"
    using declared_static [OF s(1,2)] declared_mono n by simp
  have 4: "\<forall>r q. heap w' r = Some q \<longrightarrow> IsReady \<in> set (q_onceReady q) \<longrightarrow>
            r = ReplyQueue \<and> channel_opened (trace w') \<and> declared (exchange w') (trace w')"
  proof (intro allI impI)
    fix r q' assume "heap w' r = Some q'" "IsReady \<in> set (q_onceReady q')"
    with h obtain q where "heap w r = Some q" "IsReady \<in> set (q_onceReady q)" by blast
    with assms(1) have "r = ReplyQueue \<and> channel_opened (trace w) \<and> declared (exchange w) (trace w)"
      unfolding gate_def by blast
    then show "r = ReplyQueue \<and> channel_opened (trace w') \<and> declared (exchange w') (trace w')"
      using n d by simp
  qed
  have 5: "x_replyQueue (exchange w') = None \<or> x_replyQueue (exchange w') = Some ReplyQueue"
    using assms(1) s by (simp add: gate_def)
  show ?thesis unfolding gate_def using 1 2 3 4 5 by blast
qed

lemma quiet_log: "e \<noteq> Emit TheExchange EvReady None \<Longrightarrow> quiet w w1 \<Longrightarrow> quiet w (log e w1)"
  by (erule quiet_trans) (simp add: quiet_def)

lemma quiet_hand_out: "t \<noteq> OnExchange \<Longrightarrow> quiet w w1 \<Longrightarrow> quiet w (hand_out t w1)"
  by (erule quiet_trans) (simp add: quiet_def)

lemma quiet_take_token: "quiet w w1 \<Longrightarrow> quiet w (take_token t w1)"
  using set_remove1_subset [of t "outstanding w1"]
  by (elim quiet_trans) (auto simp: quiet_def)

lemma quiet_upd_exchange:
  "(\<And>x. x_name (f x) = x_name x \<and> x_type (f x) = x_type x
        \<and> x_replyQueue (f x) = x_replyQueue x \<and> (x_ready (f x) \<longrightarrow> x_ready x)) \<Longrightarrow>
   quiet w w1 \<Longrightarrow> quiet w (upd_exchange f w1)"
  by (erule quiet_trans) (simp add: quiet_def)

lemma quiet_upd_queue:
  "(\<And>q. IsReady \<in> set (q_onceReady (f q)) \<Longrightarrow> IsReady \<in> set (q_onceReady q)) \<Longrightarrow>
   quiet w w1 \<Longrightarrow> quiet w (upd_queue r f w1)"
  by (erule quiet_trans) (auto simp: quiet_def heap_upd_queue split: if_splits)

lemma quiet_fields:
  "quiet w w1 \<Longrightarrow> quiet w (w1\<lparr>bindings := b\<rparr>)"
  "quiet w w1 \<Longrightarrow> quiet w (w1\<lparr>publish_calls := k\<rparr>)"
  "quiet w w1 \<Longrightarrow> quiet w (w1\<lparr>v4_calls := k\<rparr>)"
  by (erule quiet_trans, simp add: quiet_def)+

lemmas quiet_rules = quiet_log quiet_hand_out quiet_take_token quiet_upd_exchange
  quiet_upd_queue quiet_fields

lemma quiet_onDrain: "quiet w w1 \<Longrightarrow> quiet w (onDrain w1)"
  by (simp add: onDrain_def quiet_rules)

lemma quiet_Queue_connect: "quiet w w1 \<Longrightarrow> quiet w (Queue_connect r c w1)"
  by (simp add: Queue_connect_def quiet_rules)

lemma quiet_Queue_once_ready:
  "l \<noteq> IsReady \<Longrightarrow> quiet w w1 \<Longrightarrow> quiet w (Queue_once_ready r l w1)"
  by (auto simp: Queue_once_ready_def intro!: quiet_rules)

lemma quiet_Queue_on_close: "quiet w w1 \<Longrightarrow> quiet w (Queue_on_close r l w1)"
  by (auto simp: Queue_on_close_def intro!: quiet_rules)

lemma quiet_bail: "quiet w w1 \<Longrightarrow> quiet w (bail err w1)"
  by (auto simp: bail_def intro!: quiet_rules)

lemma quiet_onImmediate: "quiet w w1 \<Longrightarrow> quiet w (onImmediate w1)"
  by (auto simp: onImmediate_def Let_def intro!: quiet_rules)

lemma quiet_onReply: "onReply rt data msg w = Inr w' \<Longrightarrow> quiet w w'"
  by (auto simp: onReply_def Let_def intro!: quiet_rules split: option.splits if_splits)

lemma quiet_connect: "quiet w w1 \<Longrightarrow> quiet w (connect c w1)"
  by (auto simp: connect_def consume_def Let_def
      intro!: quiet_rules quiet_Queue_once_ready quiet_Queue_on_close split: option.splits)

lemma quiet_createQueue: "quiet w (createQueue options w)"
proof -
  let ?w1 = "w\<lparr>heap := (heap w)(NewQueue (allocated w) \<mapsto> Queue_constructor options),
               allocated := Suc (allocated w)\<rparr>"
  have "quiet w ?w1" by (simp add: quiet_def Queue_constructor_def)
  then show ?thesis
    by (auto simp: createQueue_def Let_def
        intro!: quiet_rules quiet_Queue_once_ready quiet_Queue_on_close quiet_Queue_connect
        split: option.splits)
qed

lemma quiet_sendMessage: "sendMessage rt m options w = Inr w' \<Longrightarrow> quiet w w'"
  by (auto simp: sendMessage_def Let_def split: option.splits sum.splits if_splits
      intro!: quiet_rules quiet_onDrain)

lemma quiet_Exchange_listener: "Exchange_listener rt l w = Inr w' \<Longrightarrow> quiet w w'"
  by (auto simp: Exchange_listener_def split: exchange_listener.splits option.splits
      intro: quiet_sendMessage intro!: quiet_Queue_connect)

lemma quiet_run_all_Exchange_listener:
  "run_all (Exchange_listener rt) ls w = Inr w' \<Longrightarrow> quiet w w'"
proof (induction ls arbitrary: w)
  case Nil
  then show ?case by simp
next
  case (Cons l ls)
  then obtain w1 where 1: "Exchange_listener rt l w = Inr w1"
      and 2: "run_all (Exchange_listener rt) ls w1 = Inr w'"
    by (auto split: sum.splits)
  show ?case using quiet_Exchange_listener [OF 1] Cons.IH [OF 2] by (rule quiet_trans)
qed

lemma quiet_fold_bindKey: "quiet w w1 \<Longrightarrow> quiet w (fold (bindKey n) iks w1)"
proof (induction iks arbitrary: w1)
  case Nil
  then show ?case by simp
next
  case (Cons ik iks)
  have "quiet w (bindKey n ik w1)" using Cons.prems
    by (auto simp: bindKey_def intro!: quiet_rules split: option.splits)
  then show ?case using Cons.IH by simp
qed

lemma quiet_Promise_all: "quiet w w1 \<Longrightarrow> quiet w (Promise_all n w1)"
  by (auto simp: Promise_all_def intro!: quiet_rules split: option.splits)

lemma quiet_bindKeys: "quiet w w1 \<Longrightarrow> quiet w (bindKeys n keys w1)"
  by (auto simp: bindKeys_def Let_def intro!: quiet_Promise_all quiet_rules quiet_fold_bindKey)

lemma quiet_onBind: "quiet w w1 \<Longrightarrow> quiet w (onBind n i err w1)"
  by (auto simp: onBind_def intro!: quiet_Promise_all quiet_rules split: option.splits)

lemma quiet_fold_bail: "quiet w w1 \<Longrightarrow> quiet w (fold (\<lambda>l. bail err) ls w1)"
  by (induction ls arbitrary: w1) (auto intro: quiet_bail)

lemma quiet_Queue_emit_close: "quiet w w1 \<Longrightarrow> quiet w (Queue_emit_close r err w1)"
  by (auto simp: Queue_emit_close_def intro!: quiet_fold_bail quiet_rules split: option.splits)

lemma quiet_Queue_bail: "quiet w w1 \<Longrightarrow> quiet w (Queue_bail r err w1)"
  by (auto simp: Queue_bail_def intro!: quiet_Queue_emit_close quiet_rules)

lemma quiet_Queue_onChannel: "quiet w w1 \<Longrightarrow> quiet w (Queue_onChannel r err chan w1)"
  by (auto simp: Queue_onChannel_def Let_def intro!: quiet_Queue_bail quiet_rules
      split: option.splits)

lemma quiet_onConsume: "quiet w w1 \<Longrightarrow> quiet w (onConsume r err tag w1)"
  by (auto simp: onConsume_def intro!: quiet_Queue_bail quiet_rules split: option.splits)

lemma quiet_onMessage: "onMessage rt r c m w = Inr w' \<Longrightarrow> quiet w w'"
  by (auto simp: onMessage_def intro: quiet_onReply intro!: quiet_rules
      split: option.splits sum.splits if_splits consumer.splits)

lemma quiet_ack: "ack rt r m reply w = Inr w' \<Longrightarrow> quiet w w'"
  by (auto simp: ack_def intro!: quiet_rules split: option.splits sum.splits if_splits)

lemma quiet_nack: "nack r m opts w = Inr w' \<Longrightarrow> quiet w w'"
  by (auto simp: nack_def intro!: quiet_rules split: option.splits)

lemma quiet_publish: "publish rt m options w = Inr w' \<Longrightarrow> quiet w w'"
proof -
  let ?w1 = "upd_exchange (\<lambda>x. x\<lparr>x_publishing := x_publishing x + 1\<rparr>) w"
  assume a: "publish rt m options w = Inr w'"
  have q1: "quiet w ?w1" by (intro quiet_rules) simp_all
  show ?thesis
  proof (cases "x_ready (exchange w)")
    case True
    with a have "sendMessage rt m options ?w1 = Inr w'" by (simp add: publish_def Let_def)
    then show ?thesis using q1 quiet_sendMessage quiet_trans by blast
  next
    case False
    with a have "w' = upd_exchange
        (\<lambda>x. x\<lparr>x_onceReady := x_onceReady x @ [SendMessage m options]\<rparr>) ?w1"
      by (simp add: publish_def Let_def)
    then show ?thesis using q1 by (auto intro!: quiet_rules)
  qed
qed

lemma prerequisites_grows:
  "grows w w' \<Longrightarrow> prerequisites (exchange w) (trace w) \<Longrightarrow>
   prerequisites (exchange w') (trace w')"
  unfolding grows_def using prerequisites_static prerequisites_mono by (metis (no_types))

lemma channel_opened_grows: "grows w w' \<Longrightarrow> channel_opened (trace w) \<Longrightarrow> channel_opened (trace w')"
  by (auto simp: grows_def)

lemma declared_grows:
  "grows w w' \<Longrightarrow> declared (exchange w) (trace w) \<Longrightarrow> declared (exchange w') (trace w')"
  unfolding grows_def using declared_static declared_mono by (metis (no_types))

lemma gateD:
  assumes "gate w"
  shows "ready_guarded w"
    and "x_ready (exchange w) \<Longrightarrow> Emit TheExchange EvReady None \<in> set (trace w)"
    and "OnExchange \<in> set (outstanding w) \<Longrightarrow> channel_opened (trace w)"
    and "heap w r = Some q \<Longrightarrow> IsReady \<in> set (q_onceReady q) \<Longrightarrow>
           r = ReplyQueue \<and> channel_opened (trace w) \<and> declared (exchange w) (trace w)"
    and "x_replyQueue (exchange w) = None \<or> x_replyQueue (exchange w) = Some ReplyQueue"
  using assms unfolding gate_def by blast+

lemma gateI:
  assumes "ready_guarded w"
    and "x_ready (exchange w) \<Longrightarrow> Emit TheExchange EvReady None \<in> set (trace w)"
    and "OnExchange \<in> set (outstanding w) \<Longrightarrow> channel_opened (trace w)"
    and "\<And>r q. heap w r = Some q \<Longrightarrow> IsReady \<in> set (q_onceReady q) \<Longrightarrow>
           r = ReplyQueue \<and> channel_opened (trace w) \<and> declared (exchange w) (trace w)"
    and "x_replyQueue (exchange w) = None \<or> x_replyQueue (exchange w) = Some ReplyQueue"
  shows "gate w"
  unfolding gate_def using assms by blast

lemma gate_isReady:
  assumes "gate w" "prerequisites (exchange w) (trace w)" "isReady rt w = Inr w'"
  shows "gate w' \<and> grows w w'"
proof -
  let ?w0 = "log (Emit TheExchange EvReady None)
               (upd_exchange (\<lambda>x. x\<lparr>x_onceReady := []\<rparr>)
                  (upd_exchange (\<lambda>x. x\<lparr>x_ready := True\<rparr>) w))"
  have r: "run_all (Exchange_listener rt) (x_onceReady (exchange w)) ?w0 = Inr w'"
    using assms(3) unfolding isReady_def Exchange_emit_ready_def by simp
  have 1: "ready_guarded ?w0"
    using gateD(1) [OF assms(1)] assms(2) by (rule ready_guarded_ready) simp_all
  have g0: "gate ?w0"
  proof (rule gateI)
    show "ready_guarded ?w0" by (rule 1)
    show "Emit TheExchange EvReady None \<in> set (trace ?w0)" by simp
    show "channel_opened (trace ?w0)" if "OnExchange \<in> set (outstanding ?w0)"
      using that gateD(3) [OF assms(1)] by simp
    show "x_replyQueue (exchange ?w0) = None \<or> x_replyQueue (exchange ?w0) = Some ReplyQueue"
      using gateD(5) [OF assms(1)] by simp
  next
    fix r q assume h: "heap ?w0 r = Some q" "IsReady \<in> set (q_onceReady q)"
    then have "heap w r = Some q" by simp
    then have *: "r = ReplyQueue \<and> channel_opened (trace w) \<and> declared (exchange w) (trace w)"
      using h(2) gateD(4) [OF assms(1)] by blast
    have "declared (exchange ?w0) (trace w @ [Emit TheExchange EvReady None])
          = declared (exchange w) (trace w @ [Emit TheExchange EvReady None])"
      by (rule declared_static) simp_all
    moreover have "declared (exchange w) (trace w @ [Emit TheExchange EvReady None])"
      using * by (intro declared_mono) simp
    ultimately have "declared (exchange ?w0) (trace ?w0)" by simp
    then show "r = ReplyQueue \<and> channel_opened (trace ?w0) \<and> declared (exchange ?w0) (trace ?w0)"
      using * by simp
  qed
  have gr0: "grows w ?w0" by (simp add: grows_def)
  have q: "quiet ?w0 w'" using r by (rule quiet_run_all_Exchange_listener)
  show ?thesis using gate_quiet [OF g0 q] grows_trans [OF gr0 quiet_grows [OF q]] by simp
qed

lemma gate_register:
  assumes "gate w" "channel_opened (trace w)" "declared (exchange w) (trace w)"
  shows "gate (Queue_once_ready ReplyQueue IsReady w)"
proof (rule gateI)
  let ?w' = "Queue_once_ready ReplyQueue IsReady w"
  have t: "trace ?w' = trace w" "exchange ?w' = exchange w" "outstanding ?w' = outstanding w"
    by (simp_all add: Queue_once_ready_def)
  show "ready_guarded ?w'"
    using gateD(1) [OF assms(1)] by (rule ready_guarded_append [where new = "[]"]) (simp_all add: t)
  show "Emit TheExchange EvReady None \<in> set (trace ?w')" if "x_ready (exchange ?w')"
    using that gateD(2) [OF assms(1)] by (simp add: t)
  show "channel_opened (trace ?w')" if "OnExchange \<in> set (outstanding ?w')"
    using assms(2) by (simp add: t)
  show "x_replyQueue (exchange ?w') = None \<or> x_replyQueue (exchange ?w') = Some ReplyQueue"
    using gateD(5) [OF assms(1)] by (simp add: t)
  fix r q assume h: "heap ?w' r = Some q" "IsReady \<in> set (q_onceReady q)"
  have "r = ReplyQueue"
  proof (rule ccontr)
    assume n: "r \<noteq> ReplyQueue"
    then have "heap w r = Some q" using h(1) by (simp add: Queue_once_ready_def heap_upd_queue)
    then show False using n h(2) gateD(4) [OF assms(1)] by blast
  qed
  then show "r = ReplyQueue \<and> channel_opened (trace ?w') \<and> declared (exchange ?w') (trace ?w')"
    using assms(2,3) by (simp add: t)
qed

lemma gate_hand_out_OnExchange:
  assumes "gate w" "channel_opened (trace w)"
  shows "gate (hand_out OnExchange w)"
proof (rule gateI)
  let ?w' = "hand_out OnExchange w"
  show "ready_guarded ?w'"
    using gateD(1) [OF assms(1)] by (rule ready_guarded_append [where new = "[]"]) simp_all
  show "Emit TheExchange EvReady None \<in> set (trace ?w')" if "x_ready (exchange ?w')"
    using that gateD(2) [OF assms(1)] by simp
  show "channel_opened (trace ?w')" using assms(2) by simp
  show "x_replyQueue (exchange ?w') = None \<or> x_replyQueue (exchange ?w') = Some ReplyQueue"
    using gateD(5) [OF assms(1)] by simp
  fix r q assume "heap ?w' r = Some q" "IsReady \<in> set (q_onceReady q)"
  then show "r = ReplyQueue \<and> channel_opened (trace ?w') \<and> declared (exchange ?w') (trace ?w')"
    using gateD(4) [OF assms(1), of r q] by simp
qed

lemma gate_onExchange:
  assumes "gate w" "channel_opened (trace w)" "err = None \<longrightarrow> declared (exchange w) (trace w)"
    "onExchange rt err w = Inr w'"
  shows "gate w' \<and> grows w w'"
proof (cases err)
  case (Some e)
  then have "w' = bail (Some e) w" using assms(4) by (simp add: onExchange_def)
  then have "quiet w w'" by (simp add: quiet_bail)
  then show ?thesis using assms(1) gate_quiet quiet_grows by blast
next
  case None
  show ?thesis
  proof (cases "x_replyQueue (exchange w)")
    case n: None
    have "reply_queue_ready (exchange w) (trace w)" using n by (simp add: reply_queue_ready_def)
    then have "prerequisites (exchange w) (trace w)"
      using assms(2,3) None by (simp add: prerequisites_def)
    moreover have "isReady rt w = Inr w'" using assms(4) None n by (simp add: onExchange_def)
    ultimately show ?thesis using assms(1) gate_isReady by blast
  next
    case (Some r)
    then have r: "r = ReplyQueue" using gateD(5) [OF assms(1)] by simp
    from assms(4) None Some obtain c where c: "x_connection (exchange w) = Some c"
      and w': "w' = Queue_once_ready r IsReady (Queue_connect r c w)"
      by (auto simp: onExchange_def split: option.splits)
    let ?w1 = "Queue_connect r c w"
    have q: "quiet w ?w1" by (simp add: quiet_Queue_connect)
    have g1: "gate ?w1" using assms(1) q by (rule gate_quiet)
    have "channel_opened (trace ?w1)" using assms(2) by simp
    moreover have "declared (exchange ?w1) (trace ?w1)"
      using assms(3) None by (simp add: declared_mono)
    ultimately have "gate w'" using g1 w' r gate_register by simp
    moreover have "grows w w'" using w' by (simp add: grows_def Queue_once_ready_def)
    ultimately show ?thesis by simp
  qed
qed

lemma gate_onChannel:
  assumes "gate w" "err = None \<longrightarrow> channel_opened (trace w)" "onChannel rt err chan w = Inr w'"
  shows "gate w' \<and> grows w w'"
proof (cases err)
  case (Some e)
  then have "w' = bail (Some e) w" using assms(3) by (simp add: onChannel_def)
  then have "quiet w w'" by (simp add: quiet_bail)
  then show ?thesis using assms(1) gate_quiet quiet_grows by blast
next
  case None
  let ?w3 = "log (Emit TheExchange EvConnected None)
               (hand_out OnChannelDrain (hand_out OnChannelClose
                  (upd_exchange (\<lambda>x. x\<lparr>x_channel := Some chan\<rparr>) w)))"
  have q: "quiet w ?w3" by (intro quiet_rules) simp_all
  have g3: "gate ?w3" using assms(1) q by (rule gate_quiet)
  have gr3: "grows w ?w3" using q by (rule quiet_grows)
  have c3: "channel_opened (trace ?w3)" using assms(2) None by simp
  show ?thesis
  proof (cases "isDefault (x_name (exchange w)) (x_type (exchange w))
                \<or> isNameless (Some (x_name (exchange w)))")
    case True
    then have "onExchange rt None ?w3 = Inr w'"
      using assms(3) None by (simp add: onChannel_def Let_def)
    moreover have "declared (exchange ?w3) (trace ?w3)" using True by (auto simp: declared_def)
    ultimately have "gate w' \<and> grows ?w3 w'" using g3 c3 gate_onExchange by blast
    then show ?thesis using gr3 grows_trans by blast
  next
    case False
    then have w': "w' = hand_out OnExchange
         (log (AssertExchange chan (x_name (exchange w)) (x_type (exchange w))
                 (x_options (exchange w))) ?w3)"
      using assms(3) None by (simp add: onChannel_def Let_def)
    let ?w4 = "log (AssertExchange chan (x_name (exchange w)) (x_type (exchange w))
                 (x_options (exchange w))) ?w3"
    have q4: "quiet ?w3 ?w4" by (rule quiet_log [OF _ quiet_refl]) simp
    have "gate ?w4" using g3 q4 by (rule gate_quiet)
    moreover have "channel_opened (trace ?w4)" using c3 by simp
    ultimately have "gate w'" using w' gate_hand_out_OnExchange by simp
    moreover have "grows w w'" using w' by (simp add: grows_def)
    ultimately show ?thesis by simp
  qed
qed

lemma gate_Queue_listener:
  assumes "gate w" "l = IsReady \<longrightarrow> prerequisites (exchange w) (trace w)"
    "Queue_listener rt r l w = Inr w'"
  shows "gate w' \<and> grows w w'"
proof (cases l)
  case (BindOnReady n)
  then have "quiet w w'" using assms(3)
    by (auto simp: Queue_listener_def intro!: quiet_bindKeys split: option.splits if_splits)
  then show ?thesis using assms(1) gate_quiet quiet_grows by blast
next
  case (ConsumeOnReady c options)
  then have "quiet w w'" using assms(3)
    by (auto simp: Queue_listener_def intro!: quiet_rules split: option.splits)
  then show ?thesis using assms(1) gate_quiet quiet_grows by blast
next
  case IsReady
  then have "isReady rt w = Inr w'" using assms(3) by (simp add: Queue_listener_def)
  then show ?thesis using assms(1,2) IsReady gate_isReady by blast
qed

lemma gate_run_all_Queue_listener:
  assumes "gate w" "IsReady \<in> set ls \<longrightarrow> prerequisites (exchange w) (trace w)"
    "run_all (Queue_listener rt r) ls w = Inr w'"
  shows "gate w' \<and> grows w w'"
  using assms
proof (induction ls arbitrary: w)
  case Nil
  then show ?case by simp
next
  case (Cons l ls)
  from Cons.prems(3) obtain w1 where 1: "Queue_listener rt r l w = Inr w1"
      and 2: "run_all (Queue_listener rt r) ls w1 = Inr w'"
    by (auto split: sum.splits)
  have g1: "gate w1 \<and> grows w w1"
    using Cons.prems(1,2) 1 by (intro gate_Queue_listener [of w l rt r w1]) simp_all
  have "IsReady \<in> set ls \<longrightarrow> prerequisites (exchange w1) (trace w1)"
    using Cons.prems(2) g1 prerequisites_grows by auto
  then have "gate w' \<and> grows w1 w'" using Cons.IH [of w1] g1 2 by simp
  then show ?case using g1 grows_trans by blast
qed

lemma gate_Queue_emit_ready:
  assumes "gate w" "Queue_emit_ready rt r w = Inr w'"
  shows "gate w' \<and> grows w w'"
proof (cases "heap w r")
  case None
  then show ?thesis using assms by (simp add: Queue_emit_ready_def)
next
  case (Some q)
  let ?w1 = "log (Emit (TheQueue r) EvReady None) (upd_queue r (\<lambda>q. q\<lparr>q_onceReady := []\<rparr>) w)"
  have q1: "quiet w ?w1" by (intro quiet_rules) simp_all
  have g1: "gate ?w1" using assms(1) q1 by (rule gate_quiet)
  have r: "run_all (Queue_listener rt r) (q_onceReady q) ?w1 = Inr w'"
    using assms(2) Some by (simp add: Queue_emit_ready_def)
  have "prerequisites (exchange ?w1) (trace ?w1)" if "IsReady \<in> set (q_onceReady q)"
  proof -
    have *: "r = ReplyQueue \<and> channel_opened (trace w) \<and> declared (exchange w) (trace w)"
      using gateD(4) [OF assms(1) Some that] .
    have "declared (exchange w) (trace w @ [Emit (TheQueue r) EvReady None])"
      using * by (intro declared_mono) simp
    then show ?thesis using * by (simp add: prerequisites_def reply_queue_ready_def)
  qed
  then have "gate w' \<and> grows ?w1 w'"
    using g1 r by (intro gate_run_all_Queue_listener [of ?w1 "q_onceReady q" rt r w']) simp_all
  then show ?thesis using quiet_grows [OF q1] grows_trans by blast
qed

lemma gate_Queue_onQueue:
  assumes "gate w" "Queue_onQueue rt r err name w = Inr w'"
  shows "gate w' \<and> grows w w'"
proof (cases err)
  case (Some e)
  then have "w' = Queue_bail r (Some e) w" using assms(2) by (simp add: Queue_onQueue_def)
  then have "quiet w w'" by (simp add: quiet_Queue_bail)
  then show ?thesis using assms(1) gate_quiet quiet_grows by blast
next
  case None
  let ?w1 = "upd_queue r (\<lambda>q. q\<lparr>q_name := Some name\<rparr>) w"
  have q1: "quiet w ?w1" by (intro quiet_rules) simp_all
  have "Queue_emit_ready rt r ?w1 = Inr w'" using assms(2) None by (simp add: Queue_onQueue_def)
  then have "gate w' \<and> grows ?w1 w'" using gate_quiet [OF assms(1) q1] gate_Queue_emit_ready by blast
  then show ?thesis using quiet_grows [OF q1] grows_trans by blast
qed

lemma gate_handle:
  assumes "gate w" "enabled i w" "handle rt i (log (Received i) w) = Inr w'"
  shows "gate w' \<and> grows w w'"
proof -
  define w1 where "w1 = log (Received i) w"
  have h: "handle rt i w1 = Inr w'" using assms(3) by (simp add: w1_def)
  have t1: "trace w1 = trace w @ [Received i]" "outstanding w1 = outstanding w"
    "exchange w1 = exchange w"
    by (simp_all add: w1_def)
  have q1: "quiet w w1" unfolding w1_def by (intro quiet_rules) simp_all
  have g1: "gate w1" using assms(1) q1 by (rule gate_quiet)
  have gr1: "grows w w1" using q1 by (rule quiet_grows)
  have quiet_case: "gate w' \<and> grows w w'" if "quiet w1 w'"
    using that g1 gr1 gate_quiet quiet_grows grows_trans by blast
  show ?thesis
  proof (cases i)
    case (CallConnect c)
    then show ?thesis using h by (intro quiet_case) (auto simp: handle_def intro!: quiet_connect)
  next
    case (CallPublish m options)
    then show ?thesis using h by (intro quiet_case) (auto simp: handle_def intro: quiet_publish)
  next
    case (CallQueue options)
    then show ?thesis using h by (intro quiet_case) (auto simp: handle_def intro!: quiet_createQueue)
  next
    case (CallConsume n f options)
    then show ?thesis using h
      by (intro quiet_case) (auto simp: handle_def consume_def intro!: quiet_Queue_once_ready)
  next
    case (CallAck n m reply)
    then show ?thesis using h by (intro quiet_case) (auto simp: handle_def intro: quiet_ack)
  next
    case (CallNack n m options)
    then show ?thesis using h by (intro quiet_case) (auto simp: handle_def intro: quiet_nack)
  next
    case (ChannelCreated err chan)
    let ?w2 = "take_token OnChannel w1"
    have q2: "quiet w1 ?w2" by (rule quiet_take_token [OF quiet_refl])
    have "onChannel rt err chan ?w2 = Inr w'" using h ChannelCreated by (simp add: handle_def)
    moreover have "err = None \<longrightarrow> channel_opened (trace ?w2)"
      using ChannelCreated by (simp add: t1)
    ultimately have "gate w' \<and> grows ?w2 w'"
      using gate_quiet [OF g1 q2] gate_onChannel by blast
    then show ?thesis using gr1 quiet_grows [OF q2] grows_trans by blast
  next
    case (ExchangeAsserted err)
    let ?w2 = "take_token OnExchange w1"
    have q2: "quiet w1 ?w2" by (rule quiet_take_token [OF quiet_refl])
    have "onExchange rt err ?w2 = Inr w'" using h ExchangeAsserted by (simp add: handle_def)
    moreover have "channel_opened (trace ?w2)"
      using assms(2) ExchangeAsserted gateD(3) [OF assms(1)] by (simp add: enabled_def t1)
    moreover have "err = None \<longrightarrow> declared (exchange ?w2) (trace ?w2)"
      using ExchangeAsserted by (simp add: declared_def t1)
    ultimately have "gate w' \<and> grows ?w2 w'"
      using gate_quiet [OF g1 q2] gate_onExchange by blast
    then show ?thesis using gr1 quiet_grows [OF q2] grows_trans by blast
  next
    case ChannelClosed
    then show ?thesis using h
      by (intro quiet_case) (auto simp: handle_def intro!: quiet_bail quiet_rules)
  next
    case ChannelDrained
    then show ?thesis using h by (intro quiet_case) (auto simp: handle_def intro!: quiet_onDrain)
  next
    case ImmediateRan
    then show ?thesis using h
      by (intro quiet_case) (auto simp: handle_def intro!: quiet_onImmediate quiet_rules)
  next
    case (QueueChannelCreated r err chan)
    then show ?thesis using h
      by (intro quiet_case) (auto simp: handle_def intro!: quiet_Queue_onChannel quiet_rules)
  next
    case (QueueAsserted r err name)
    let ?w2 = "take_token (OnQueue r) w1"
    have q2: "quiet w1 ?w2" by (rule quiet_take_token [OF quiet_refl])
    have "Queue_onQueue rt r err name ?w2 = Inr w'"
      using h QueueAsserted by (simp add: handle_def)
    then have "gate w' \<and> grows ?w2 w'" using gate_quiet [OF g1 q2] gate_Queue_onQueue by blast
    then show ?thesis using gr1 quiet_grows [OF q2] grows_trans by blast
  next
    case (QueueChannelClosed r)
    then show ?thesis using h
      by (intro quiet_case) (auto simp: handle_def intro!: quiet_Queue_bail quiet_rules)
  next
    case (ConsumeStarted r err tag)
    then show ?thesis using h
      by (intro quiet_case) (auto simp: handle_def intro!: quiet_onConsume quiet_rules)
  next
    case (Delivery r c m)
    then show ?thesis using h by (intro quiet_case) (auto simp: handle_def intro: quiet_onMessage)
  next
    case (BindDone n k err)
    then show ?thesis using h
      by (intro quiet_case) (auto simp: handle_def intro!: quiet_onBind quiet_rules)
  next
    case (BoundThen n)
    then show ?thesis using h
      by (intro quiet_case) (auto simp: handle_def intro!: quiet_rules)
  next
    case (BindCatch n e)
    then show ?thesis using h
      by (intro quiet_case) (auto simp: handle_def intro!: quiet_bail quiet_rules)
  qed
qed

lemma gate_step:
  assumes "gate w" "step rt i w = Some (Inr w')"
  shows "gate w' \<and> grows w w'"
  using assms gate_handle [of w i rt w'] by (simp add: step_def split: if_splits)

lemma gate_reachable:
  assumes "reachable rt w0 w" "gate w0"
  shows "gate w \<and> grows w0 w"
  using assms
proof (induction rule: reachable.induct)
  case reach_start
  then show ?case by simp
next
  case (reach_step w i w')
  then show ?case using gate_step grows_trans by blast
qed

lemma gate_constructed:
  assumes "Exchange_constructor name type options = Inr w0"
  shows "gate w0"
proof -
  have t: "trace w0 = []" "outstanding w0 = []" "\<not> x_ready (exchange w0)"
    "x_replyQueue (exchange w0) = None \<or> x_replyQueue (exchange w0) = Some ReplyQueue"
    "\<forall>r q. heap w0 r = Some q \<longrightarrow> q_onceReady q = []"
    using assms
    by (auto simp: Exchange_constructor_def Let_def Queue_constructor_def
        split: option.splits if_splits sum.splits)
  show ?thesis
  proof (rule gateI)
    show "ready_guarded w0" using t(1) by (simp add: ready_guarded_def)
  qed (use t in auto)
qed

lemma run_reachable: "run rt ins w = Some (Inr w') \<Longrightarrow> reachable rt w w'"
proof (induction ins arbitrary: w' rule: rev_induct)
  case Nil
  then show ?case by (simp add: reachable.reach_start)
next
  case (snoc i ins)
  have run_append: "run rt (xs @ [x]) v =
      (case run rt xs v of Some (Inr v') \<Rightarrow> (case step rt x v' of None \<Rightarrow> None
          | Some (Inl e) \<Rightarrow> Some (Inl e) | Some (Inr v'') \<Rightarrow> Some (Inr v''))
        | other \<Rightarrow> other)" for xs x v
    by (induction xs arbitrary: v) (auto split: option.splits sum.splits)
  from snoc.prems obtain w1 where 1: "run rt ins w = Some (Inr w1)"
      and 2: "step rt i w1 = Some (Inr w')"
    by (auto simp: run_append split: option.splits sum.splits)
  show ?case using snoc.IH [OF 1] 2 by (rule reachable.reach_step)
qed

lemma succeeds_world_of: "succeeds r \<Longrightarrow> r = Some (Inr (world_of r))"
  by (auto simp: succeeds_def world_of_def split: option.splits sum.splits)

lemma constructed_world_constructed:
  "Exchange_constructor None (Some ''direct'') no_exchange_options = Inr constructed_world"
  by (simp add: constructed_world_def scenario_def world_of_def Exchange_constructor_def
      resolve_name_def isNameless_def isDefaultType_def DEFAULT_EXCHANGES_def Let_def)

lemma ready_world_reachable: "reachable sample_runtime constructed_world ready_world"
proof -
  have "succeeds (scenario sample_runtime None (Some ''direct'') no_exchange_options becoming_ready)"
    by code_simp
  then have "scenario sample_runtime None (Some ''direct'') no_exchange_options becoming_ready
      = Some (Inr ready_world)"
    unfolding ready_world_def by (rule succeeds_world_of)
  then have "run sample_runtime becoming_ready constructed_world = Some (Inr ready_world)"
    using constructed_world_constructed by (simp add: scenario_def)
  then show ?thesis by (rule run_reachable)
qed

lemma ready_world_trace:
  "trace ready_world =
     [Received (CallConnect 7), CreateChannel 7 OnChannel,
      Received (ChannelCreated None 1), Emit TheExchange EvConnected None,
      CreateChannel 7 (OnQueueChannel ReplyQueue),
      Received (QueueChannelCreated ReplyQueue None 2), Prefetch 2 1,
      Emit (TheQueue ReplyQueue) EvConnected None,
      AssertQueue 2 None (no_queue_options\<lparr>qo_exclusive := Some True\<rparr>),
      Received (QueueAsserted ReplyQueue None ''amq.gen-1''),
      Emit (TheQueue ReplyQueue) EvReady None,
      Consume 2 (Some ''amq.gen-1'') OnReply
        \<lparr>co_consumerTag = None, co_noAck = Some True, co_exclusive = Some False,
          co_priority = None, co_undefined = [''consumerTag'', ''priority'']\<rparr>]
     @ Emit TheExchange EvReady None # []"
  unfolding ready_world_def by code_simp

text \<open>
  C2. In every world that a constructed exchange reaches, whatever the caller and the
  client do: each "ready" of the exchange in the trace comes after a \<open>createChannel\<close>
  callback without error, after the callback of \<open>assertExchange\<close> without error unless
  the exchange is one that is not declared, and, when the exchange has a reply queue,
  after the "ready" of that queue; and the ready flag is set only if "ready" was emitted.
\<close>

theorem ready_only_after_prerequisites:
  assumes "Exchange_constructor name type options = Inr w0" "reachable rt w0 w"
  shows "(\<forall>pre post. trace w = pre @ Emit TheExchange EvReady None # post \<longrightarrow>
            channel_opened pre \<and> declared (exchange w0) pre \<and> reply_queue_ready (exchange w0) pre)
       \<and> (x_ready (exchange w) \<longrightarrow> Emit TheExchange EvReady None \<in> set (trace w))"
proof -
  have g: "gate w" "grows w0 w"
    using gate_reachable [OF assms(2) gate_constructed [OF assms(1)]] by simp_all
  have p: "prerequisites (exchange w) pre = prerequisites (exchange w0) pre" for pre
    using g(2) by (intro prerequisites_static) (simp_all add: grows_def)
  show ?thesis
    using gateD(1,2) [OF g(1)] p unfolding ready_guarded_def prerequisites_def by blast
qed

theorem ready_only_after_prerequisites_witness:
  "Exchange_constructor None (Some ''direct'') no_exchange_options = Inr constructed_world
   \<and> reachable sample_runtime constructed_world ready_world
   \<and> trace ready_world =
     [Received (CallConnect 7), CreateChannel 7 OnChannel,
      Received (ChannelCreated None 1), Emit TheExchange EvConnected None,
      CreateChannel 7 (OnQueueChannel ReplyQueue),
      Received (QueueChannelCreated ReplyQueue None 2), Prefetch 2 1,
      Emit (TheQueue ReplyQueue) EvConnected None,
      AssertQueue 2 None (no_queue_options\<lparr>qo_exclusive := Some True\<rparr>),
      Received (QueueAsserted ReplyQueue None ''amq.gen-1''),
      Emit (TheQueue ReplyQueue) EvReady None,
      Consume 2 (Some ''amq.gen-1'') OnReply
        \<lparr>co_consumerTag = None, co_noAck = Some True, co_exclusive = Some False,
          co_priority = None, co_undefined = [''consumerTag'', ''priority'']\<rparr>]
     @ Emit TheExchange EvReady None # []
   \<and> channel_opened (take 12 (trace ready_world))
   \<and> declared (exchange constructed_world) (take 12 (trace ready_world))
   \<and> reply_queue_ready (exchange constructed_world) (take 12 (trace ready_world))"
  using ready_only_after_prerequisites [OF constructed_world_constructed ready_world_reachable]
    constructed_world_constructed ready_world_reachable ready_world_trace
  by simp

section \<open>Binding all the keys\<close>

lemma about_bound [simp]: "about n (bound m) = (m = n)"
  by (simp add: bound_def)

lemma not_about_filter: "filter (about n) new = [] \<Longrightarrow> about n e \<Longrightarrow> e \<notin> set new"
  by (auto simp: filter_empty_conv)

lemma count_list_notin: "x \<notin> set xs \<Longrightarrow> count_list xs x = 0"
  by (induction xs) auto

lemma in_set_count_list: "x \<in> set xs \<longleftrightarrow> 0 < count_list xs x"
  by (induction xs) auto

lemma bound_guarded_append:
  assumes "bound_guarded n k tr" "bound n \<notin> set new"
  shows "bound_guarded n k (tr @ new)"
  unfolding bound_guarded_def
proof (intro allI impI)
  fix pre post i
  assume e: "tr @ new = pre @ bound n # post" and i: "i < k"
  from e obtain us where "(tr = pre @ us \<and> us @ new = bound n # post)
      \<or> (tr @ us = pre \<and> new = us @ bound n # post)"
    by (auto simp: append_eq_append_conv2)
  then show "Received (BindDone n i None) \<in> set pre"
  proof
    assume a: "tr = pre @ us \<and> us @ new = bound n # post"
    show ?thesis
    proof (cases us)
      case Nil
      with a assms(2) show ?thesis by auto
    next
      case (Cons u us')
      with a have "tr = pre @ bound n # us'" by simp
      then show ?thesis using assms(1) i unfolding bound_guarded_def by blast
    qed
  next
    assume "tr @ us = pre \<and> new = us @ bound n # post"
    then show ?thesis using assms(2) by auto
  qed
qed

lemma bound_guarded_bound:
  assumes "bound_guarded n k tr" "\<forall>i<k. Received (BindDone n i None) \<in> set tr"
  shows "bound_guarded n k (tr @ [bound n])"
  unfolding bound_guarded_def
proof (intro allI impI)
  fix pre post i
  assume e: "tr @ [bound n] = pre @ bound n # post" and i: "i < k"
  show "Received (BindDone n i None) \<in> set pre"
  proof (cases post rule: rev_cases)
    case Nil
    with e have "pre = tr" by simp
    then show ?thesis using assms(2) i by simp
  next
    case (snoc post' u)
    with e have "tr = pre @ bound n # post'" by simp
    then show ?thesis using assms(1) i unfolding bound_guarded_def by blast
  qed
qed

lemma unchanged_refl [simp]: "unchanged n w w"
  by (simp add: unchanged_def)

lemma unchanged_trans:
  assumes "unchanged n w w1" "unchanged n w1 w2"
  shows "unchanged n w w2"
proof -
  from assms(1) obtain n1 where n1: "trace w1 = trace w @ n1" "filter (about n) n1 = []"
    unfolding unchanged_def by blast
  from assms(2) obtain n2 where n2: "trace w2 = trace w1 @ n2" "filter (about n) n2 = []"
    unfolding unchanged_def by blast
  have t: "trace w2 = trace w @ (n1 @ n2) \<and> filter (about n) (n1 @ n2) = []"
    using n1 n2 by simp
  have "\<forall>t. concerns n t \<longrightarrow> count_list (outstanding w2) t = count_list (outstanding w) t"
    "bindings w2 n = bindings w n" "(allocated w2 \<le> n \<longleftrightarrow> allocated w \<le> n)"
    "keys_of n w2 = keys_of n w"
    using assms by (simp_all add: unchanged_def)
  moreover have "\<forall>r. listens n w2 r \<le> listens n w r"
    using assms unfolding unchanged_def by (meson order_trans)
  ultimately show ?thesis unfolding unchanged_def using t by blast
qed

lemma promises_ok_unchanged:
  assumes "promises_ok n w b" "unchanged n w w'"
  shows "promises_ok n w' b"
proof -
  from assms(2) obtain new where n: "trace w' = trace w @ new" "filter (about n) new = []"
    unfolding unchanged_def by blast
  have c: "count_list (outstanding w') t = count_list (outstanding w) t" if "concerns n t" for t
    using assms(2) that by (simp add: unchanged_def)
  have m: "t \<in> set (outstanding w') \<longleftrightarrow> t \<in> set (outstanding w)" if "concerns n t" for t
    using c [OF that] by (simp add: in_set_count_list)
  have e: "e \<in> set (trace w') \<longleftrightarrow> e \<in> set (trace w)" if "about n e" for e
    using n not_about_filter [OF n(2) that] by auto
  have b: "count_list (trace w') (bound n) = count_list (trace w) (bound n)"
    using n not_about_filter [OF n(2), of "bound n"] by (simp add: count_list_notin)
  have g: "bound_guarded n k (trace w')" if "bound_guarded n k (trace w)" for k
    using that n not_about_filter [OF n(2), of "bound n"] by (simp add: bound_guarded_append)
  have k: "keys_of n w' = keys_of n w" using assms(2) by (simp add: unchanged_def)
  show ?thesis
    using assms(1) unfolding promises_ok_def
    by (simp add: c m e b g k)
qed

lemma binv_unchanged:
  assumes "binv n w" "unchanged n w w'"
  shows "binv n w'"
proof -
  from assms(2) obtain new where n: "trace w' = trace w @ new" "filter (about n) new = []"
    unfolding unchanged_def by blast
  have c: "count_list (outstanding w') t = count_list (outstanding w) t" if "concerns n t" for t
    using assms(2) that by (simp add: unchanged_def)
  have m: "t \<in> set (outstanding w') \<longleftrightarrow> t \<in> set (outstanding w)" if "concerns n t" for t
    using c [OF that] by (simp add: in_set_count_list)
  have e: "e \<in> set (trace w') \<longleftrightarrow> e \<in> set (trace w)" if "about n e" for e
    using n not_about_filter [OF n(2) that] by auto
  have u: "bindings w' n = bindings w n" "(allocated w' \<le> n \<longleftrightarrow> allocated w \<le> n)"
    "keys_of n w' = keys_of n w"
    using assms(2) by (simp_all add: unchanged_def)
  have l: "listens n w' r \<le> listens n w r" for r
    using assms(2) by (simp add: unchanged_def)
  have l0: "\<forall>r. listens n w' r = 0" if "\<forall>r. listens n w r = 0"
    using that l by (metis le_zero_eq)
  have l1: "listens n w' r \<le> (if r = NewQueue n \<and> bindings w n = None then 1 else 0)" for r
    using assms(1) l [of r] unfolding binv_def by (meson order_trans)
  have z: "closes_after_catch n (trace w')"
  proof -
    have "closes_after_catch n (trace w)" using assms(1) by (simp add: binv_def)
    moreover have "Received (BindCatch n x) \<in> set (trace w') \<longleftrightarrow> Received (BindCatch n x) \<in> set (trace w)" for x
      by (rule e) simp
    ultimately show ?thesis using n(1) by (auto simp: closes_after_catch_def)
  qed
  have p: "promises_ok n w' b" if "bindings w n = Some b" for b
    using assms(1) that promises_ok_unchanged [OF _ assms(2)] by (simp add: binv_def)
  show ?thesis
    using assms(1) z p l0 l1 unfolding binv_def by (simp add: u m e)
qed

lemma count_list_remove1_other: "t \<noteq> t' \<Longrightarrow> count_list (remove1 t xs) t' = count_list xs t'"
  by (induction xs) auto

lemma listens_simps [simp]:
  "listens n (log e w) = listens n w" "listens n (hand_out t w) = listens n w"
  "listens n (take_token t w) = listens n w" "listens n (upd_exchange f w) = listens n w"
  "listens n (w\<lparr>bindings := b\<rparr>) = listens n w" "listens n (w\<lparr>publish_calls := k\<rparr>) = listens n w"
  "listens n (w\<lparr>v4_calls := k\<rparr>) = listens n w"
  by (simp_all add: listens_def fun_eq_iff)

lemma keys_of_simps [simp]:
  "keys_of n (log e w) = keys_of n w" "keys_of n (hand_out t w) = keys_of n w"
  "keys_of n (take_token t w) = keys_of n w" "keys_of n (upd_exchange f w) = keys_of n w"
  "keys_of n (w\<lparr>bindings := b\<rparr>) = keys_of n w" "keys_of n (w\<lparr>publish_calls := k\<rparr>) = keys_of n w"
  "keys_of n (w\<lparr>v4_calls := k\<rparr>) = keys_of n w"
  by (simp_all add: keys_of_def)

lemma unchanged_log: "\<not> about n e \<Longrightarrow> unchanged n w w1 \<Longrightarrow> unchanged n w (log e w1)"
  by (erule unchanged_trans) (simp add: unchanged_def)

lemma unchanged_hand_out: "\<not> concerns n t \<Longrightarrow> unchanged n w w1 \<Longrightarrow> unchanged n w (hand_out t w1)"
  by (erule unchanged_trans) (auto simp: unchanged_def)

lemma unchanged_take_token: "\<not> concerns n t \<Longrightarrow> unchanged n w w1 \<Longrightarrow> unchanged n w (take_token t w1)"
  by (erule unchanged_trans) (auto simp: unchanged_def count_list_remove1_other)

lemma unchanged_upd_exchange: "unchanged n w w1 \<Longrightarrow> unchanged n w (upd_exchange f w1)"
  by (erule unchanged_trans) (simp add: unchanged_def)

lemma unchanged_upd_queue:
  "(\<And>q. count_list (q_onceReady (f q)) (BindOnReady n) \<le> count_list (q_onceReady q) (BindOnReady n)
         \<and> q_options (f q) = q_options q) \<Longrightarrow>
   unchanged n w w1 \<Longrightarrow> unchanged n w (upd_queue r f w1)"
  by (erule unchanged_trans)
    (auto simp: unchanged_def listens_def keys_of_def heap_upd_queue split: option.splits)

lemma unchanged_fields:
  "unchanged n w w1 \<Longrightarrow> unchanged n w (w1\<lparr>publish_calls := k\<rparr>)"
  "unchanged n w w1 \<Longrightarrow> unchanged n w (w1\<lparr>v4_calls := k\<rparr>)"
  by (erule unchanged_trans, simp add: unchanged_def)+

lemma unchanged_bindings:
  "m \<noteq> n \<Longrightarrow> unchanged n w w1 \<Longrightarrow> unchanged n w (w1\<lparr>bindings := (bindings w1)(m \<mapsto> b)\<rparr>)"
  by (erule unchanged_trans) (simp add: unchanged_def)

lemmas unchanged_rules = unchanged_log unchanged_hand_out unchanged_take_token
  unchanged_upd_exchange unchanged_upd_queue unchanged_fields unchanged_bindings

lemma unchanged_onDrain: "unchanged n w w1 \<Longrightarrow> unchanged n w (onDrain w1)"
  by (simp add: onDrain_def unchanged_rules)

lemma unchanged_Queue_connect: "unchanged n w w1 \<Longrightarrow> unchanged n w (Queue_connect r c w1)"
  by (simp add: Queue_connect_def unchanged_rules)

lemma unchanged_Queue_once_ready:
  "l \<noteq> BindOnReady n \<Longrightarrow> unchanged n w w1 \<Longrightarrow> unchanged n w (Queue_once_ready r l w1)"
  by (auto simp: Queue_once_ready_def intro!: unchanged_rules)

lemma unchanged_Queue_on_close: "unchanged n w w1 \<Longrightarrow> unchanged n w (Queue_on_close r l w1)"
  by (auto simp: Queue_on_close_def intro!: unchanged_rules)

lemma unchanged_bail: "unchanged n w w1 \<Longrightarrow> unchanged n w (bail err w1)"
  by (auto simp: bail_def intro!: unchanged_rules)

lemma unchanged_onImmediate: "unchanged n w w1 \<Longrightarrow> unchanged n w (onImmediate w1)"
  by (auto simp: onImmediate_def Let_def intro!: unchanged_rules)

lemma unchanged_onReply: "onReply rt data msg w = Inr w' \<Longrightarrow> unchanged n w w'"
  by (auto simp: onReply_def Let_def intro!: unchanged_rules split: option.splits if_splits)

lemma unchanged_connect: "unchanged n w w1 \<Longrightarrow> unchanged n w (connect c w1)"
  by (auto simp: connect_def consume_def Let_def
      intro!: unchanged_rules unchanged_Queue_once_ready unchanged_Queue_on_close
      split: option.splits)

lemma unchanged_sendMessage: "sendMessage rt m options w = Inr w' \<Longrightarrow> unchanged n w w'"
  by (auto simp: sendMessage_def Let_def split: option.splits sum.splits if_splits
      intro!: unchanged_rules unchanged_onDrain)

lemma unchanged_Exchange_listener: "Exchange_listener rt l w = Inr w' \<Longrightarrow> unchanged n w w'"
  by (auto simp: Exchange_listener_def split: exchange_listener.splits option.splits
      intro: unchanged_sendMessage intro!: unchanged_Queue_connect)

lemma unchanged_run_all_Exchange_listener:
  "run_all (Exchange_listener rt) ls w = Inr w' \<Longrightarrow> unchanged n w w'"
proof (induction ls arbitrary: w)
  case Nil
  then show ?case by simp
next
  case (Cons l ls)
  then obtain w1 where 1: "Exchange_listener rt l w = Inr w1"
      and 2: "run_all (Exchange_listener rt) ls w1 = Inr w'"
    by (auto split: sum.splits)
  show ?case using unchanged_Exchange_listener [OF 1] Cons.IH [OF 2] by (rule unchanged_trans)
qed

lemma unchanged_isReady: "isReady rt w = Inr w' \<Longrightarrow> unchanged n w w'"
proof -
  assume a: "isReady rt w = Inr w'"
  define w0 where "w0 = log (Emit TheExchange EvReady None)
               (upd_exchange (\<lambda>x. x\<lparr>x_onceReady := []\<rparr>)
                  (upd_exchange (\<lambda>x. x\<lparr>x_ready := True\<rparr>) w))"
  have u: "unchanged n w w0" unfolding w0_def by (intro unchanged_rules) simp_all
  have "run_all (Exchange_listener rt) (x_onceReady (exchange w)) w0 = Inr w'"
    using a unfolding isReady_def Exchange_emit_ready_def w0_def by simp
  then show ?thesis using u unchanged_run_all_Exchange_listener unchanged_trans by blast
qed

lemma unchanged_publish: "publish rt m options w = Inr w' \<Longrightarrow> unchanged n w w'"
proof -
  define w1 where "w1 = upd_exchange (\<lambda>x. x\<lparr>x_publishing := x_publishing x + 1\<rparr>) w"
  assume a: "publish rt m options w = Inr w'"
  have q1: "unchanged n w w1" unfolding w1_def by (intro unchanged_rules) simp
  have r1: "x_ready (exchange w1) = x_ready (exchange w)" by (simp add: w1_def)
  show ?thesis
  proof (cases "x_ready (exchange w)")
    case True
    with a have "sendMessage rt m options w1 = Inr w'" by (simp add: publish_def Let_def w1_def)
    then show ?thesis using q1 unchanged_sendMessage unchanged_trans by blast
  next
    case False
    with a have "w' = upd_exchange
        (\<lambda>x. x\<lparr>x_onceReady := x_onceReady x @ [SendMessage m options]\<rparr>) w1"
      by (simp add: publish_def Let_def w1_def)
    then show ?thesis using q1 by (simp add: unchanged_upd_exchange)
  qed
qed

lemma unchanged_onExchange: "onExchange rt err w = Inr w' \<Longrightarrow> unchanged n w w'"
  by (auto simp: onExchange_def split: option.splits
      intro: unchanged_isReady intro!: unchanged_bail unchanged_Queue_once_ready unchanged_Queue_connect)

lemma unchanged_onChannel: "onChannel rt err chan w = Inr w' \<Longrightarrow> unchanged n w w'"
proof -
  assume a: "onChannel rt err chan w = Inr w'"
  define w3 where "w3 = log (Emit TheExchange EvConnected None)
               (hand_out OnChannelDrain (hand_out OnChannelClose
                  (upd_exchange (\<lambda>x. x\<lparr>x_channel := Some chan\<rparr>) w)))"
  have u3: "unchanged n w w3" unfolding w3_def by (intro unchanged_rules) simp_all
  show ?thesis
  proof (cases err)
    case (Some e)
    then show ?thesis using a by (auto simp: onChannel_def intro!: unchanged_bail)
  next
    case None
    then have "onExchange rt None w3 = Inr w' \<or> (\<exists>e. w' = hand_out OnExchange (log e w3) \<and> \<not> about n e)"
      using a unfolding onChannel_def Let_def w3_def by (auto split: if_splits option.splits)
    then show ?thesis
    proof
      assume "onExchange rt None w3 = Inr w'"
      then show ?thesis using u3 unchanged_onExchange unchanged_trans by blast
    next
      assume "\<exists>e. w' = hand_out OnExchange (log e w3) \<and> \<not> about n e"
      then show ?thesis using u3 by (auto intro!: unchanged_rules)
    qed
  qed
qed

lemma unchanged_fold_bail: "unchanged n w w1 \<Longrightarrow> unchanged n w (fold (\<lambda>l. bail err) ls w1)"
  by (induction ls arbitrary: w1) (auto intro: unchanged_bail)

lemma unchanged_Queue_emit_close: "unchanged n w w1 \<Longrightarrow> unchanged n w (Queue_emit_close r err w1)"
  by (auto simp: Queue_emit_close_def intro!: unchanged_fold_bail unchanged_rules split: option.splits)

lemma unchanged_Queue_bail: "unchanged n w w1 \<Longrightarrow> unchanged n w (Queue_bail r err w1)"
  by (auto simp: Queue_bail_def intro!: unchanged_Queue_emit_close unchanged_rules)

lemma unchanged_Queue_onChannel: "unchanged n w w1 \<Longrightarrow> unchanged n w (Queue_onChannel r err chan w1)"
  by (auto simp: Queue_onChannel_def Let_def intro!: unchanged_Queue_bail unchanged_rules
      split: option.splits)

lemma unchanged_onConsume: "unchanged n w w1 \<Longrightarrow> unchanged n w (onConsume r err tag w1)"
  by (auto simp: onConsume_def intro!: unchanged_Queue_bail unchanged_rules split: option.splits)

lemma unchanged_onMessage: "onMessage rt r c m w = Inr w' \<Longrightarrow> unchanged n w w'"
  by (auto simp: onMessage_def intro: unchanged_onReply intro!: unchanged_rules
      split: option.splits sum.splits if_splits consumer.splits)

lemma unchanged_ack: "ack rt r m reply w = Inr w' \<Longrightarrow> unchanged n w w'"
  by (auto simp: ack_def intro!: unchanged_rules split: option.splits sum.splits if_splits)

lemma unchanged_nack: "nack r m opts w = Inr w' \<Longrightarrow> unchanged n w w'"
  by (auto simp: nack_def intro!: unchanged_rules split: option.splits)

lemma unchanged_fold_bindKey:
  "m \<noteq> n \<Longrightarrow> unchanged n w w1 \<Longrightarrow> unchanged n w (fold (bindKey m) iks w1)"
proof (induction iks arbitrary: w1)
  case Nil
  then show ?case by simp
next
  case (Cons ik iks)
  have "unchanged n w (bindKey m ik w1)" using Cons.prems
    by (auto simp: bindKey_def intro!: unchanged_rules split: option.splits)
  then show ?case using Cons.IH Cons.prems(1) by simp
qed

lemma unchanged_Promise_all: "m \<noteq> n \<Longrightarrow> unchanged n w w1 \<Longrightarrow> unchanged n w (Promise_all m w1)"
  by (auto simp: Promise_all_def intro!: unchanged_rules split: option.splits)

lemma unchanged_bindKeys: "m \<noteq> n \<Longrightarrow> unchanged n w w1 \<Longrightarrow> unchanged n w (bindKeys m keys w1)"
  by (auto simp: bindKeys_def Let_def
      intro!: unchanged_Promise_all unchanged_rules unchanged_fold_bindKey)

lemma unchanged_onBind: "m \<noteq> n \<Longrightarrow> unchanged n w w1 \<Longrightarrow> unchanged n w (onBind m i err w1)"
  by (auto simp: onBind_def intro!: unchanged_Promise_all unchanged_rules split: option.splits)

lemma first_rejected_None_iff:
  "first_rejected ps = None \<longleftrightarrow> (\<forall>p \<in> set ps. \<forall>e. p \<noteq> Rejected e)"
  by (induction ps rule: first_rejected.induct) auto

lemma first_rejected_nth:
  "i < length ps \<Longrightarrow> ps ! i = Rejected e \<Longrightarrow> first_rejected ps \<noteq> None"
  by (auto simp: first_rejected_None_iff dest: nth_mem)

lemma first_rejected_Fulfilled:
  "list_all (\<lambda>p. p = Fulfilled) ps \<Longrightarrow> first_rejected ps = None"
  by (auto simp: first_rejected_None_iff list_all_iff)

lemma first_rejected_update_Fulfilled:
  "i < length ps \<Longrightarrow> ps ! i = Pending \<Longrightarrow>
   (first_rejected (ps[i := Fulfilled]) = None) = (first_rejected ps = None)"
  unfolding first_rejected_None_iff
  by (metis (no_types, lifting) in_set_conv_nth length_list_update nth_list_update_eq
      nth_list_update_neq pstate.distinct(3) pstate.distinct(5))

lemma all_Fulfilled_nth:
  "list_all (\<lambda>p. p = Fulfilled) ps \<longleftrightarrow> (\<forall>i<length ps. ps ! i = Fulfilled)"
  by (simp add: list_all_length)

lemma fold_bindKey_None:
  "x_channel (exchange w) = None \<Longrightarrow> fold (bindKey n) iks w = w"
  by (induction iks) (simp_all add: bindKey_def)

lemma fold_bindKey_Some:
  assumes "x_channel (exchange w) = Some ch"
  shows "exchange (fold (bindKey n) (enumerate j keys) w) = exchange w
       \<and> heap (fold (bindKey n) (enumerate j keys) w) = heap w
       \<and> bindings (fold (bindKey n) (enumerate j keys) w) = bindings w
       \<and> allocated (fold (bindKey n) (enumerate j keys) w) = allocated w
       \<and> (\<exists>new. trace (fold (bindKey n) (enumerate j keys) w) = trace w @ new
              \<and> (\<forall>m. filter (about m) new = []))
       \<and> outstanding (fold (bindKey n) (enumerate j keys) w)
           = outstanding w @ map (OnBind n) [j..<j + length keys]"
  using assms
proof (induction keys arbitrary: j w)
  case Nil
  then show ?case by simp
next
  case (Cons k keys)
  define w1 where "w1 = bindKey n (j, k) w"
  have 1: "exchange w1 = exchange w" "heap w1 = heap w" "bindings w1 = bindings w"
    "allocated w1 = allocated w" "outstanding w1 = outstanding w @ [OnBind n j]"
    "\<exists>e. trace w1 = trace w @ [e] \<and> (\<forall>m. \<not> about m e)"
    using Cons.prems by (simp_all add: w1_def bindKey_def)
  have c: "x_channel (exchange w1) = Some ch" using 1 Cons.prems by simp
  have f: "fold (bindKey n) (enumerate j (k # keys)) w = fold (bindKey n) (enumerate (Suc j) keys) w1"
    by (simp add: w1_def)
  have u: "[j..<j + length (k # keys)] = j # [Suc j..<Suc j + length keys]"
    by (simp add: upt_rec)
  from 1(6) obtain e where e: "trace w1 = trace w @ [e]" "\<forall>m. \<not> about m e" by blast
  from Cons.IH [OF c, of "Suc j"] obtain new where
    n: "trace (fold (bindKey n) (enumerate (Suc j) keys) w1) = trace w1 @ new"
      "\<forall>m. filter (about m) new = []"
    by blast
  have t: "trace (fold (bindKey n) (enumerate (Suc j) keys) w1) = trace w @ (e # new)
      \<and> (\<forall>m. filter (about m) (e # new) = [])"
    using e n by simp
  show ?case
    unfolding f u using Cons.IH [OF c, of "Suc j"] 1 t by (simp del: upt_Suc)
qed

lemma promises_ok_Promise_all:
  assumes "bindings w n = Some b" "promises_pre n w b"
  shows "\<exists>b'. bindings (Promise_all n w) n = Some b'
       \<and> promises_ok n (Promise_all n w) b'
       \<and> trace (Promise_all n w) = trace w \<and> heap (Promise_all n w) = heap w
       \<and> allocated (Promise_all n w) = allocated w"
proof -
  let ?ps = "b_promises b"
  let ?all = "list_all (\<lambda>p. p = Fulfilled) ?ps"
  have pre: "keys_of n w = Some (length ?ps)"
    "\<forall>i. count_list (outstanding w) (OnBind n i)
              \<le> (if i < length ?ps \<and> ?ps ! i = Pending then 1 else 0)"
    "\<forall>i err. Received (BindDone n i err) \<in> set (trace w) \<longrightarrow>
              i < length ?ps \<and> ?ps ! i = (case err of None \<Rightarrow> Fulfilled | Some e \<Rightarrow> Rejected e)"
    "\<forall>i<length ?ps. ?ps ! i = Fulfilled \<longrightarrow> Received (BindDone n i None) \<in> set (trace w)"
    "b_settled b \<longrightarrow> first_rejected ?ps \<noteq> None \<or> ?all"
    "count_list (outstanding w) (ThenBound n) + count_list (trace w) (bound n)
            = (if b_settled b \<and> ?all then 1 else 0)"
    "b_settled b \<and> first_rejected ?ps \<noteq> None \<longrightarrow>
            (\<exists>e. CatchBail n e \<in> set (outstanding w) \<or> Received (BindCatch n e) \<in> set (trace w))"
    "bound_guarded n (length ?ps) (trace w)"
    using assms(2) unfolding promises_pre_def by blast+
  consider (settled) "b_settled b"
    | (rejected) e where "\<not> b_settled b" "first_rejected ?ps = Some e"
    | (fulfilled) "\<not> b_settled b" "first_rejected ?ps = None" "?all"
    | (waiting) "\<not> b_settled b" "first_rejected ?ps = None" "\<not> ?all"
    by (cases "first_rejected ?ps") auto
  then show ?thesis
  proof cases
    case settled
    then have w: "Promise_all n w = w" using assms(1) by (simp add: Promise_all_def)
    have "promises_ok n w b"
      unfolding promises_ok_def using pre settled by simp
    then show ?thesis using w assms(1) by simp
  next
    case rejected
    let ?b' = "b\<lparr>b_settled := True\<rparr>"
    let ?w' = "hand_out (CatchBail n e) (w\<lparr>bindings := (bindings w)(n \<mapsto> ?b')\<rparr>)"
    have w: "Promise_all n w = ?w'" using assms(1) rejected by (simp add: Promise_all_def)
    have na: "\<not> ?all" using rejected(2) first_rejected_Fulfilled by fastforce
    have "promises_ok n ?w' ?b'"
      unfolding promises_ok_def using pre rejected na by auto
    then show ?thesis unfolding w by simp
  next
    case fulfilled
    let ?b' = "b\<lparr>b_settled := True\<rparr>"
    let ?w' = "hand_out (ThenBound n) (w\<lparr>bindings := (bindings w)(n \<mapsto> ?b')\<rparr>)"
    have w: "Promise_all n w = ?w'" using assms(1) fulfilled by (simp add: Promise_all_def)
    have "promises_ok n ?w' ?b'"
      unfolding promises_ok_def using pre fulfilled by auto
    then show ?thesis unfolding w by simp
  next
    case waiting
    then have w: "Promise_all n w = w" using assms(1) by (simp add: Promise_all_def)
    have "promises_ok n w b"
      unfolding promises_ok_def using pre waiting by simp
    then show ?thesis using w assms(1) by simp
  qed
qed

lemma listens_Promise_all [simp]: "listens n (Promise_all m w) = listens n w"
  by (auto simp: Promise_all_def fun_eq_iff listens_def split: option.splits)

lemma binv_from_pre:
  assumes "bindings w n = Some b" "promises_pre n w b" "\<forall>r. listens n w r = 0"
    "n < allocated w" "closes_after_catch n (trace w)"
  shows "binv n (Promise_all n w)"
proof -
  from promises_ok_Promise_all [OF assms(1,2)] obtain b' where
    b: "bindings (Promise_all n w) n = Some b'" "promises_ok n (Promise_all n w) b'"
      "trace (Promise_all n w) = trace w" "allocated (Promise_all n w) = allocated w"
    by blast
  show ?thesis
    unfolding binv_def using b assms(3,4,5) by simp
qed

lemma count_list_OnBind_upt:
  "count_list (map (OnBind n) [0..<k]) (OnBind n i) = (if i < k then 1 else 0)"
  by (induction k) auto

lemma count_list_OnBind_other:
  "count_list (map (OnBind n) xs) (ThenBound m) = 0"
  "count_list (map (OnBind n) xs) (CatchBail m e) = 0"
  by (induction xs) auto

lemma bound_guarded_absent: "bound n \<notin> set tr \<Longrightarrow> bound_guarded n k tr"
  by (auto simp: bound_guarded_def)

lemma closes_after_catch_append:
  "closes_after_catch n tr \<Longrightarrow> (\<forall>e. Received (BindCatch n e) \<notin> set new) \<Longrightarrow>
   closes_after_catch n (tr @ new)"
  by (auto simp: closes_after_catch_def)

lemma binv_allocated: "binv n w \<Longrightarrow> heap w (NewQueue n) = Some q \<Longrightarrow> n < allocated w"
  unfolding binv_def keys_of_def by (cases "allocated w \<le> n") auto

lemma binv_bindKeys:
  assumes "binv n w" "bindings w n = None" "\<forall>r. listens n w r = 0"
    "heap w (NewQueue n) = Some q" "keys = bind_keys_of (q_options q)"
  shows "binv n (bindKeys n keys w)"
proof -
  define p where "p = (case x_channel (exchange w) of
                 None \<Rightarrow> Rejected (TypeError ''Cannot read properties of undefined'')
               | Some ch \<Rightarrow> Pending)"
  define w1 where "w1 = fold (bindKey n) (enumerate 0 keys) w"
  define b0 where "b0 = \<lparr>b_promises = map (\<lambda>k. p) keys, b_settled = False\<rparr>"
  define wb where "wb = w1\<lparr>bindings := (bindings w1)(n \<mapsto> b0)\<rparr>"
  have r: "bindKeys n keys w = Promise_all n wb"
    by (simp add: bindKeys_def Let_def p_def w1_def b0_def wb_def)
  have c: "\<forall>t. concerns n t \<longrightarrow> t \<notin> set (outstanding w)" "\<forall>e. about n e \<longrightarrow> e \<notin> set (trace w)"
    using assms(1,2) by (simp_all add: binv_def)
  have f: "heap w1 = heap w \<and> allocated w1 = allocated w
      \<and> (\<exists>new. trace w1 = trace w @ new \<and> (\<forall>m. filter (about m) new = []))
      \<and> outstanding w1 = outstanding w
            @ (if p = Pending then map (OnBind n) [0..<length keys] else [])"
  proof (cases "x_channel (exchange w)")
    case None
    then show ?thesis using fold_bindKey_None [OF None] by (simp add: w1_def p_def)
  next
    case (Some ch)
    then show ?thesis using fold_bindKey_Some [OF Some, of n 0 keys] by (simp add: w1_def p_def)
  qed
  then obtain new where n: "trace w1 = trace w @ new" "\<forall>m. filter (about m) new = []" by blast
  have a: "e \<notin> set (trace wb)" if "about n e" for e
    using c(2) that n not_about_filter [of n new e] by (simp add: wb_def)
  have pf: "p \<noteq> Fulfilled" by (simp add: p_def split: option.splits)
  have o1: "count_list (outstanding wb) (OnBind n i)
      \<le> (if i < length keys \<and> p = Pending then 1 else 0)" for i
    using f c(1) by (simp add: wb_def count_list_OnBind_upt count_list_notin)
  have o2: "count_list (outstanding wb) (ThenBound n) = 0"
    using f c(1) by (simp add: wb_def count_list_OnBind_other count_list_notin)
  have "promises_pre n wb b0"
    unfolding promises_pre_def
  proof (intro conjI allI impI)
    show "keys_of n wb = Some (length (b_promises b0))"
      using f assms(4,5) by (simp add: keys_of_def wb_def b0_def)
    show "count_list (outstanding wb) (OnBind n i)
        \<le> (if i < length (b_promises b0) \<and> b_promises b0 ! i = Pending then 1 else 0)" for i
      using o1 [of i] by (auto simp: b0_def split: if_splits)
    show "count_list (outstanding wb) (ThenBound n) + count_list (trace wb) (bound n)
        = (if b_settled b0 \<and> list_all (\<lambda>p. p = Fulfilled) (b_promises b0) then 1 else 0)"
      using o2 a [of "bound n"] by (simp add: b0_def count_list_notin)
    show "bound_guarded n (length (b_promises b0)) (trace wb)"
      using a [of "bound n"] by (simp add: bound_guarded_absent)
  qed (use a pf in \<open>auto simp: b0_def\<close>)
  moreover have "bindings wb n = Some b0" by (simp add: wb_def)
  moreover have "\<forall>r. listens n wb r = 0"
    using assms(3) f by (simp add: wb_def listens_def)
  moreover have "n < allocated wb"
    using binv_allocated [OF assms(1,4)] f by (simp add: wb_def)
  moreover have "closes_after_catch n (trace wb)"
    using a by (auto simp: closes_after_catch_def)
  ultimately show ?thesis unfolding r using binv_from_pre by blast
qed

lemma bail_simps [simp]:
  "trace (bail err w) = trace w @ [Emit TheExchange EvClose err]"
  "heap (bail err w) = heap w" "outstanding (bail err w) = outstanding w"
  "bindings (bail err w) = bindings w" "allocated (bail err w) = allocated w"
  "listens n (bail err w) = listens n w" "keys_of n (bail err w) = keys_of n w"
  by (simp_all add: bail_def)

lemma count_list_remove1_same:
  "x \<in> set xs \<Longrightarrow> count_list (remove1 x xs) x = count_list xs x - 1"
  by (induction xs) auto

lemma in_set_remove1_other: "t \<noteq> t' \<Longrightarrow> t' \<in> set (remove1 t xs) \<longleftrightarrow> t' \<in> set xs"
  by (simp add: in_set_remove1)

lemma binv_bindings:
  assumes "binv n w" "concerns n t" "t \<in> set (outstanding w)"
  shows "\<exists>b. bindings w n = Some b \<and> promises_ok n w b"
  using assms unfolding binv_def by (cases "bindings w n") auto

lemma binv_frame:
  assumes "binv n w" "bindings w n = Some b"
  shows "\<forall>r. listens n w r = 0" "n < allocated w" "closes_after_catch n (trace w)"
proof -
  show "\<forall>r. listens n w r = 0"
    using assms unfolding binv_def by (metis le_zero_eq option.distinct(1))
  show "n < allocated w" using assms unfolding binv_def by (cases "allocated w \<le> n") auto
  show "closes_after_catch n (trace w)" using assms by (simp add: binv_def)
qed

lemma binv_BoundThen:
  assumes "binv n w" "ThenBound n \<in> set (outstanding w)"
  shows "binv n (log (Emit (TheQueue (NewQueue n)) EvBound None)
                  (take_token (ThenBound n) (log (Received (BoundThen n)) w)))"
proof -
  let ?w' = "log (Emit (TheQueue (NewQueue n)) EvBound None)
               (take_token (ThenBound n) (log (Received (BoundThen n)) w))"
  from binv_bindings [OF assms(1) _ assms(2)] obtain b where
    b: "bindings w n = Some b" and ok: "promises_ok n w b" by auto
  let ?ps = "b_promises b"
  have pos: "0 < count_list (outstanding w) (ThenBound n)"
    using assms(2) by (simp add: in_set_count_list)
  have cnt: "count_list (outstanding w) (ThenBound n) + count_list (trace w) (bound n)
      = (if list_all (\<lambda>p. p = Fulfilled) ?ps then 1 else 0)"
    using ok by (simp add: promises_ok_def)
  have allf: "list_all (\<lambda>p. p = Fulfilled) ?ps" using pos cnt by (auto split: if_splits)
  have c1: "count_list (outstanding w) (ThenBound n) = 1" "count_list (trace w) (bound n) = 0"
    using pos cnt allf by simp_all
  have rec: "\<forall>i<length ?ps. Received (BindDone n i None) \<in> set (trace w)"
    using ok allf unfolding promises_ok_def all_Fulfilled_nth by blast
  have g: "bound_guarded n (length ?ps) (trace ?w')"
  proof -
    have "bound_guarded n (length ?ps) (trace w)" using ok by (simp add: promises_ok_def)
    then have "bound_guarded n (length ?ps) (trace w @ [Received (BoundThen n)])"
      by (rule bound_guarded_append) (simp add: bound_def)
    moreover have "\<forall>i<length ?ps. Received (BindDone n i None)
        \<in> set (trace w @ [Received (BoundThen n)])"
      using rec by simp
    ultimately have "bound_guarded n (length ?ps) ((trace w @ [Received (BoundThen n)]) @ [bound n])"
      by (rule bound_guarded_bound)
    then show ?thesis by (simp add: bound_def)
  qed
  have "promises_ok n ?w' b"
    unfolding promises_ok_def
  proof (intro conjI allI impI)
    show "bound_guarded n (length ?ps) (trace ?w')" by (rule g)
    show "count_list (outstanding ?w') (ThenBound n) + count_list (trace ?w') (bound n)
        = (if list_all (\<lambda>p. p = Fulfilled) ?ps then 1 else 0)"
      using c1 allf assms(2) by (simp add: count_list_remove1_same bound_def)
    show "\<exists>e. CatchBail n e \<in> set (outstanding ?w') \<or> Received (BindCatch n e) \<in> set (trace ?w')"
      if "first_rejected ?ps \<noteq> None"
      using that first_rejected_Fulfilled [OF allf] by simp
  qed (use ok in \<open>auto simp: promises_ok_def count_list_remove1_other\<close>)
  then show ?thesis
    unfolding binv_def using b binv_frame [OF assms(1) b]
    by (auto simp: closes_after_catch_def)
qed

lemma binv_BindCatch:
  assumes "binv n w" "CatchBail n e \<in> set (outstanding w)"
  shows "binv n (bail (Some e) (take_token (CatchBail n e) (log (Received (BindCatch n e)) w)))"
proof -
  let ?w' = "bail (Some e) (take_token (CatchBail n e) (log (Received (BindCatch n e)) w))"
  from binv_bindings [OF assms(1) _ assms(2)] obtain b where
    b: "bindings w n = Some b" and ok: "promises_ok n w b" by auto
  let ?ps = "b_promises b"
  have g: "bound_guarded n (length ?ps) (trace ?w')"
  proof -
    have "bound_guarded n (length ?ps) (trace w)" using ok by (simp add: promises_ok_def)
    then have "bound_guarded n (length ?ps)
        (trace w @ [Received (BindCatch n e), Emit TheExchange EvClose (Some e)])"
      by (rule bound_guarded_append) (simp add: bound_def)
    then show ?thesis by simp
  qed
  have "promises_ok n ?w' b"
    unfolding promises_ok_def
  proof (intro conjI allI impI)
    show "bound_guarded n (length ?ps) (trace ?w')" by (rule g)
    show "\<exists>x. CatchBail n x \<in> set (outstanding ?w') \<or> Received (BindCatch n x) \<in> set (trace ?w')"
      if "first_rejected ?ps \<noteq> None"
      by (rule exI [of _ e]) simp
  qed (use ok in \<open>auto simp: promises_ok_def count_list_remove1_other bound_def\<close>)
  then show ?thesis
    unfolding binv_def using b binv_frame [OF assms(1) b]
    by (auto simp: closes_after_catch_def)
qed

lemma first_rejected_ex:
  "first_rejected ps \<noteq> None \<Longrightarrow> \<exists>j e. j < length ps \<and> ps ! j = Rejected e"
  by (auto simp: first_rejected_None_iff in_set_conv_nth) blast

lemma binv_BindDone:
  assumes "binv n w" "OnBind n i \<in> set (outstanding w)"
  shows "binv n (onBind n i err (take_token (OnBind n i) (log (Received (BindDone n i err)) w)))"
proof -
  from binv_bindings [OF assms(1) _ assms(2)] obtain b where
    b: "bindings w n = Some b" and ok: "promises_ok n w b" by auto
  define ps where "ps = b_promises b"
  define st where "st = (case err of Some e \<Rightarrow> Rejected e | None \<Rightarrow> Fulfilled)"
  define w2 where "w2 = take_token (OnBind n i) (log (Received (BindDone n i err)) w)"
  define b' where "b' = b\<lparr>b_promises := ps[i := st]\<rparr>"
  define wu where "wu = w2\<lparr>bindings := (bindings w2)(n \<mapsto> b')\<rparr>"
  have pos: "0 < count_list (outstanding w) (OnBind n i)"
    using assms(2) by (simp add: in_set_count_list)
  have le: "count_list (outstanding w) (OnBind n j)
      \<le> (if j < length ps \<and> ps ! j = Pending then 1 else 0)" for j
    using ok by (simp add: promises_ok_def ps_def)
  have i: "i < length ps" "ps ! i = Pending" "count_list (outstanding w) (OnBind n i) = 1"
    using pos le [of i] by (auto split: if_splits)
  have r: "onBind n i err w2 = Promise_all n wu"
    using b i by (simp add: onBind_def w2_def wu_def b'_def st_def ps_def)
  have tr: "trace wu = trace w @ [Received (BindDone n i err)]"
    and out: "outstanding wu = remove1 (OnBind n i) (outstanding w)"
    and ps': "b_promises b' = ps[i := st]" and se: "b_settled b' = b_settled b"
    by (simp_all add: wu_def w2_def b'_def)
  have nall: "\<not> list_all (\<lambda>p. p = Fulfilled) ps"
    using i by (auto simp: all_Fulfilled_nth)
  have old: "\<forall>j err'. Received (BindDone n j err') \<in> set (trace w) \<longrightarrow>
      j < length ps \<and> ps ! j = (case err' of None \<Rightarrow> Fulfilled | Some e \<Rightarrow> Rejected e)"
    using ok by (simp add: promises_ok_def ps_def)
  have oldf: "\<forall>j<length ps. ps ! j = Fulfilled \<longrightarrow> Received (BindDone n j None) \<in> set (trace w)"
    using ok by (simp add: promises_ok_def ps_def)
  have stp: "st \<noteq> Pending" by (simp add: st_def split: option.splits)
  have rej: "first_rejected ps \<noteq> None" if "b_settled b"
    using ok that nall by (simp add: promises_ok_def ps_def)
  have rej': "first_rejected (ps[i := st]) \<noteq> None
      \<and> \<not> list_all (\<lambda>p. p = Fulfilled) (ps[i := st])" if "b_settled b"
  proof -
    from first_rejected_ex [OF rej [OF that]] obtain j e where
      j: "j < length ps" "ps ! j = Rejected e" by blast
    then have "j \<noteq> i" using i by auto
    then have "ps[i := st] ! j = Rejected e" "j < length (ps[i := st])" using j by simp_all
    then show ?thesis
      using first_rejected_nth [of j "ps[i := st]" e] by (auto simp: all_Fulfilled_nth)
  qed
  have c0: "count_list (outstanding w) (ThenBound n) + count_list (trace w) (bound n) = 0"
    using ok nall by (simp add: promises_ok_def ps_def)
  have "promises_pre n wu b'"
    unfolding promises_pre_def ps' se
  proof (intro conjI allI impI)
    show "keys_of n wu = Some (length (ps[i := st]))"
      using ok by (simp add: promises_ok_def ps_def wu_def w2_def)
    show "count_list (outstanding wu) (OnBind n j)
        \<le> (if j < length (ps[i := st]) \<and> ps[i := st] ! j = Pending then 1 else 0)" for j
    proof (cases "j = i")
      case True
      then show ?thesis using i assms(2) by (simp add: out count_list_remove1_same)
    next
      case False
      then show ?thesis using le [of j] by (simp add: out count_list_remove1_other)
    qed
    show "j < length (ps[i := st])"
      if "Received (BindDone n j err') \<in> set (trace wu)" for j err'
      using that old i by (auto simp: tr)
    show "ps[i := st] ! j = (case err' of None \<Rightarrow> Fulfilled | Some e \<Rightarrow> Rejected e)"
      if "Received (BindDone n j err') \<in> set (trace wu)" for j err'
    proof (cases "j = i")
      case True
      have "err' = err"
      proof (rule ccontr)
        assume "err' \<noteq> err"
        then have "Received (BindDone n i err') \<in> set (trace w)" using that True by (simp add: tr)
        then show False using old i by (auto split: option.splits)
      qed
      then show ?thesis using True i by (simp add: st_def split: option.splits)
    next
      case False
      then show ?thesis using that old by (simp add: tr)
    qed
    show "Received (BindDone n j None) \<in> set (trace wu)"
      if "j < length (ps[i := st])" "ps[i := st] ! j = Fulfilled" for j
    proof (cases "j = i")
      case True
      then have "st = Fulfilled" using that i by simp
      then have "err = None" by (simp add: st_def split: option.splits)
      then show ?thesis using True by (simp add: tr)
    next
      case False
      then show ?thesis using that oldf by (simp add: tr)
    qed
    show "first_rejected (ps[i := st]) \<noteq> None \<or> list_all (\<lambda>p. p = Fulfilled) (ps[i := st])"
      if "b_settled b"
      using rej' [OF that] by simp
    show "count_list (outstanding wu) (ThenBound n) + count_list (trace wu) (bound n)
        = (if b_settled b \<and> list_all (\<lambda>p. p = Fulfilled) (ps[i := st]) then 1 else 0)"
      using c0 rej' by (auto simp: tr out count_list_remove1_other bound_def)
    show "\<exists>e. CatchBail n e \<in> set (outstanding wu) \<or> Received (BindCatch n e) \<in> set (trace wu)"
      if "b_settled b \<and> first_rejected (ps[i := st]) \<noteq> None"
    proof -
      have "first_rejected ps \<noteq> None" using that rej by simp
      then obtain e where
        "CatchBail n e \<in> set (outstanding w) \<or> Received (BindCatch n e) \<in> set (trace w)"
        using ok by (auto simp: promises_ok_def ps_def)
      then show ?thesis by (auto simp: tr out in_set_remove1_other intro!: exI [of _ e])
    qed
    show "bound_guarded n (length (ps[i := st])) (trace wu)"
    proof -
      have "bound_guarded n (length ps) (trace w)" using ok by (simp add: promises_ok_def ps_def)
      then have "bound_guarded n (length ps) (trace w @ [Received (BindDone n i err)])"
        by (rule bound_guarded_append) (simp add: bound_def)
      then show ?thesis by (simp add: tr)
    qed
  qed
  moreover have "bindings wu n = Some b'" by (simp add: wu_def)
  moreover have "\<forall>r. listens n wu r = 0"
    using binv_frame(1) [OF assms(1) b] by (simp add: wu_def w2_def)
  moreover have "n < allocated wu"
    using binv_frame(2) [OF assms(1) b] by (simp add: wu_def w2_def)
  moreover have "closes_after_catch n (trace wu)"
    using binv_frame(3) [OF assms(1) b] by (auto simp: closes_after_catch_def tr)
  ultimately show ?thesis unfolding w2_def [symmetric] r using binv_from_pre by blast
qed

lemma unchanged_allocate:
  assumes "allocated w1 \<noteq> n"
  shows "unchanged n w1 (w1\<lparr>heap := (heap w1)(NewQueue (allocated w1) \<mapsto> Queue_constructor options),
                            allocated := Suc (allocated w1)\<rparr>)"
  using assms by (auto simp: unchanged_def listens_def keys_of_def Queue_constructor_def)

lemma binv_createQueue:
  assumes "binv n w"
  shows "binv n (createQueue options w)"
proof -
  define m where "m = allocated w"
  define w1 where "w1 = w\<lparr>heap := (heap w)(NewQueue m \<mapsto> Queue_constructor options),
                          allocated := Suc m\<rparr>"
  define w2 where "w2 = Queue_once_ready (NewQueue m) (BindOnReady m)
                          (Queue_on_close (NewQueue m) Bail w1)"
  define w3 where "w3 = (case x_connection (exchange w2) of
           Some c \<Rightarrow> Queue_connect (NewQueue m) c w2
         | None \<Rightarrow> upd_exchange (\<lambda>x. x\<lparr>x_onceReady := x_onceReady x @ [ConnectQueue m]\<rparr>) w2)"
  have r: "createQueue options w = w3"
    unfolding createQueue_def Let_def m_def w1_def w2_def w3_def by (rule refl)
  have u3: "unchanged n w2 w3"
    unfolding w3_def
    by (cases "x_connection (exchange w2)")
      (simp_all add: unchanged_Queue_connect unchanged_upd_exchange)
  have "binv n w2"
  proof (cases "m = n")
    case False
    have "unchanged n w w1"
      unfolding w1_def m_def using False unchanged_allocate [of w n options] by (simp add: m_def)
    then have "unchanged n w w2"
      unfolding w2_def using False
      by (intro unchanged_Queue_once_ready unchanged_Queue_on_close) simp_all
    then show ?thesis using assms binv_unchanged by blast
  next
    case True
    have a: "keys_of n w = None" "bindings w n = None" "\<forall>r. listens n w r = 0"
      "\<forall>t. concerns n t \<longrightarrow> t \<notin> set (outstanding w)" "\<forall>e. about n e \<longrightarrow> e \<notin> set (trace w)"
      "closes_after_catch n (trace w)"
      using assms True by (simp_all add: binv_def m_def)
    have f: "trace w2 = trace w" "outstanding w2 = outstanding w" "bindings w2 = bindings w"
      "allocated w2 = Suc n"
      using True by (simp_all add: w2_def w1_def Queue_once_ready_def Queue_on_close_def)
    have l: "listens n w2 r \<le> (if r = NewQueue n then 1 else 0)" for r
      using a(3) [rule_format, of r] True
      by (simp add: w2_def w1_def Queue_once_ready_def Queue_on_close_def listens_def
          heap_upd_queue Queue_constructor_def split: option.splits)
    show ?thesis
      unfolding binv_def using a l by (simp add: f)
  qed
  then show ?thesis unfolding r using u3 binv_unchanged by blast
qed

lemma listens_bindKeys [simp]: "listens n (bindKeys m keys w) = listens n w"
proof -
  have "heap (fold (bindKey m) iks w) = heap w" for iks
    by (induction iks arbitrary: w) (simp_all add: bindKey_def split: option.splits)
  then show ?thesis
    by (simp add: bindKeys_def Let_def listens_def fun_eq_iff)
qed

lemma bindings_bindKeys: "bindings (bindKeys n keys w) n \<noteq> None"
proof -
  define w1 where "w1 = fold (bindKey n) (enumerate 0 keys) w"
  define b0 where "b0 = \<lparr>b_promises = map (\<lambda>k. (case x_channel (exchange w) of
                 None \<Rightarrow> Rejected (TypeError ''Cannot read properties of undefined'')
               | Some ch \<Rightarrow> Pending)) keys, b_settled = False\<rparr>"
  have "bindings (Promise_all n w') n \<noteq> None" if "bindings w' n \<noteq> None" for w'
    using that by (auto simp: Promise_all_def split: option.splits)
  then show ?thesis by (simp add: bindKeys_def Let_def)
qed

lemma unchanged_Queue_listener:
  assumes "l \<noteq> BindOnReady n" "Queue_listener rt r l w = Inr w'"
  shows "unchanged n w w'"
proof (cases l)
  case (BindOnReady m)
  then have "m \<noteq> n" using assms(1) by simp
  then show ?thesis
    using assms(2) BindOnReady
    by (auto simp: Queue_listener_def unchanged_bindKeys split: option.splits if_splits)
next
  case (ConsumeOnReady callback options)
  then show ?thesis
    using assms(2)
    by (auto simp: Queue_listener_def split: option.splits intro!: unchanged_rules)
next
  case IsReady
  then show ?thesis using assms(2) by (simp add: Queue_listener_def unchanged_isReady)
qed

lemma binv_BindOnReady:
  assumes "binv n w" "Queue_listener rt r (BindOnReady n) w = Inr w'" "\<forall>r'. listens n w r' = 0"
    "bindings w n = None"
  shows "binv n w'"
proof (cases "\<not> isNameless (Some (x_name (exchange w))) \<and> heap w (NewQueue n) \<noteq> None")
  case False
  then have "w' = w" using assms(2) by (auto simp: Queue_listener_def)
  then show ?thesis using assms by simp
next
  case t: True
  then obtain q where q: "heap w (NewQueue n) = Some q" by auto
  have w': "w' = bindKeys n (bind_keys_of (q_options q)) w"
    using assms(2) t q by (auto simp: Queue_listener_def)
  show ?thesis
    unfolding w' using assms(1,4,3) q by (rule binv_bindKeys) simp
qed

lemma binv_run_all_Queue_listener:
  assumes "binv n w" "run_all (Queue_listener rt r) ls w = Inr w'"
    "BindOnReady n \<in> set ls \<longrightarrow> (\<forall>r'. listens n w r' = 0) \<and> bindings w n = None"
    "count_list ls (BindOnReady n) \<le> 1"
  shows "binv n w'"
  using assms
proof (induction ls arbitrary: w)
  case Nil
  then show ?case by simp
next
  case (Cons l ls)
  from Cons.prems(2) obtain w1 where 1: "Queue_listener rt r l w = Inr w1"
      and 2: "run_all (Queue_listener rt r) ls w1 = Inr w'"
    by (auto split: sum.splits)
  show ?case
  proof (cases "l = BindOnReady n")
    case True
    then have "count_list ls (BindOnReady n) = 0" using Cons.prems(4) by simp
    then have n: "BindOnReady n \<notin> set ls" by (simp add: in_set_count_list)
    have "binv n w1"
      using Cons.prems(1) 1 Cons.prems(3) True by (intro binv_BindOnReady [of n w rt r w1]) simp_all
    then show ?thesis using Cons.IH [of w1] 2 n by simp
  next
    case False
    have u: "unchanged n w w1" using False 1 by (rule unchanged_Queue_listener)
    have b: "binv n w1" using Cons.prems(1) u by (rule binv_unchanged)
    have "(\<forall>r'. listens n w1 r' = 0) \<and> bindings w1 n = None" if "BindOnReady n \<in> set ls"
    proof -
      have "(\<forall>r'. listens n w r' = 0) \<and> bindings w n = None" using that Cons.prems(3) by simp
      then show ?thesis using u unfolding unchanged_def by (metis le_zero_eq)
    qed
    moreover have "count_list ls (BindOnReady n) \<le> 1" using Cons.prems(4) False by simp
    ultimately show ?thesis using Cons.IH [of w1] b 2 by simp
  qed
qed

lemma binv_Queue_emit_ready:
  assumes "binv n w" "Queue_emit_ready rt r w = Inr w'"
  shows "binv n w'"
proof (cases "heap w r")
  case None
  then show ?thesis using assms by (simp add: Queue_emit_ready_def)
next
  case (Some q)
  define w1 where "w1 = log (Emit (TheQueue r) EvReady None)
                          (upd_queue r (\<lambda>q. q\<lparr>q_onceReady := []\<rparr>) w)"
  have u: "unchanged n w w1"
    unfolding w1_def by (intro unchanged_rules) simp_all
  have b1: "binv n w1" using assms(1) u by (rule binv_unchanged)
  have run: "run_all (Queue_listener rt r) (q_onceReady q) w1 = Inr w'"
    using assms(2) Some by (simp add: Queue_emit_ready_def w1_def)
  have l: "listens n w r' \<le> (if r' = NewQueue n \<and> bindings w n = None then 1 else 0)" for r'
    using assms(1) by (simp add: binv_def)
  have c: "count_list (q_onceReady q) (BindOnReady n)
      \<le> (if r = NewQueue n \<and> bindings w n = None then 1 else 0)"
    using l [of r] Some by (simp add: listens_def)
  have "(\<forall>r'. listens n w1 r' = 0) \<and> bindings w1 n = None"
    if "BindOnReady n \<in> set (q_onceReady q)"
  proof -
    have "0 < count_list (q_onceReady q) (BindOnReady n)" using that by (simp add: in_set_count_list)
    then have r: "r = NewQueue n" "bindings w n = None" using c by (auto split: if_splits)
    have "listens n w1 r' = 0" for r'
    proof (cases "r' = r")
      case True
      then show ?thesis using Some by (simp add: w1_def listens_def heap_upd_queue)
    next
      case False
      then have "listens n w r' = 0" using l [of r'] r by simp
      then show ?thesis using False by (simp add: w1_def listens_def heap_upd_queue)
    qed
    then show ?thesis using r by (simp add: w1_def)
  qed
  moreover have "count_list (q_onceReady q) (BindOnReady n) \<le> 1"
    using c by (auto split: if_splits)
  ultimately show ?thesis
    using b1 run by (intro binv_run_all_Queue_listener [of n w1 rt r "q_onceReady q" w']) simp_all
qed

lemma binv_Queue_onQueue:
  assumes "binv n w" "Queue_onQueue rt r err name w = Inr w'"
  shows "binv n w'"
proof (cases err)
  case (Some e)
  then have "w' = Queue_bail r (Some e) w" using assms(2) by (simp add: Queue_onQueue_def)
  then show ?thesis using assms(1) binv_unchanged unchanged_Queue_bail [OF unchanged_refl] by blast
next
  case None
  define w1 where "w1 = upd_queue r (\<lambda>q. q\<lparr>q_name := Some name\<rparr>) w"
  have "unchanged n w w1" unfolding w1_def by (intro unchanged_rules) simp_all
  then have "binv n w1" using assms(1) binv_unchanged by blast
  moreover have "Queue_emit_ready rt r w1 = Inr w'"
    using assms(2) None by (simp add: Queue_onQueue_def w1_def)
  ultimately show ?thesis by (rule binv_Queue_emit_ready)
qed

lemma binv_handle:
  assumes "binv n w" "enabled i w" "handle rt i (log (Received i) w) = Inr w'"
  shows "binv n w'"
proof -
  define w0 where "w0 = log (Received i) w"
  have h: "handle rt i w0 = Inr w'" using assms(3) by (simp add: w0_def)
  have u0: "unchanged n w w0" if "\<not> about n (Received i)"
    unfolding w0_def using that by (intro unchanged_rules) simp_all
  have fin: "binv n w'" if "\<not> about n (Received i)" "unchanged n w0 w'"
    using assms(1) unchanged_trans [OF u0 [OF that(1)] that(2)] by (rule binv_unchanged)
  have tk: "unchanged n w0 (take_token t w0)" if "\<not> concerns n t" for t
    using that by (intro unchanged_rules) simp_all
  show ?thesis
  proof (cases i)
    case (CallConnect c)
    then have "w' = connect c w0" using h by (simp add: handle_def)
    then show ?thesis using CallConnect by (intro fin) (simp_all add: unchanged_connect)
  next
    case (CallPublish m options)
    then have "publish rt m options w0 = Inr w'" using h by (simp add: handle_def)
    then show ?thesis using CallPublish by (intro fin) (simp_all add: unchanged_publish)
  next
    case (CallQueue options)
    then have w': "w' = createQueue options w0" using h by (simp add: handle_def)
    have "binv n w0" using assms(1) u0 CallQueue binv_unchanged by auto
    then show ?thesis unfolding w' by (rule binv_createQueue)
  next
    case (CallConsume k f options)
    then have "w' = Queue_once_ready (NewQueue k) (ConsumeOnReady (Callback f) options) w0"
      using h by (simp add: handle_def consume_def)
    then show ?thesis
      using CallConsume by (intro fin) (simp_all add: unchanged_Queue_once_ready)
  next
    case (CallAck k m reply)
    then have "ack rt (NewQueue k) m reply w0 = Inr w'" using h by (simp add: handle_def)
    then show ?thesis using CallAck by (intro fin) (simp_all add: unchanged_ack)
  next
    case (CallNack k m options)
    then have "nack (NewQueue k) m options w0 = Inr w'" using h by (simp add: handle_def)
    then show ?thesis using CallNack by (intro fin) (simp_all add: unchanged_nack)
  next
    case (ChannelCreated err chan)
    then have "onChannel rt err chan (take_token OnChannel w0) = Inr w'"
      using h by (simp add: handle_def)
    then have "unchanged n (take_token OnChannel w0) w'" by (rule unchanged_onChannel)
    then have "unchanged n w0 w'" using tk [of OnChannel] unchanged_trans by fastforce
    then show ?thesis using ChannelCreated by (intro fin) simp_all
  next
    case (ExchangeAsserted err)
    then have "onExchange rt err (take_token OnExchange w0) = Inr w'"
      using h by (simp add: handle_def)
    then have "unchanged n (take_token OnExchange w0) w'" by (rule unchanged_onExchange)
    then have "unchanged n w0 w'" using tk [of OnExchange] unchanged_trans by fastforce
    then show ?thesis using ExchangeAsserted by (intro fin) simp_all
  next
    case ChannelClosed
    then have "w' = bail (Some (Error ''Channel closed'')) (take_token OnChannelClose w0)"
      using h by (simp add: handle_def)
    then have "unchanged n w0 w'" using tk [of OnChannelClose] by (simp add: unchanged_bail)
    then show ?thesis using ChannelClosed by (intro fin) simp_all
  next
    case ChannelDrained
    then have "w' = onDrain w0" using h by (simp add: handle_def)
    then show ?thesis using ChannelDrained by (intro fin) (simp_all add: unchanged_onDrain)
  next
    case ImmediateRan
    then have "w' = onImmediate (take_token Immediate w0)" using h by (simp add: handle_def)
    then have "unchanged n w0 w'" using tk [of Immediate] by (simp add: unchanged_onImmediate)
    then show ?thesis using ImmediateRan by (intro fin) simp_all
  next
    case (QueueChannelCreated r err chan)
    then have "w' = Queue_onChannel r err chan (take_token (OnQueueChannel r) w0)"
      using h by (simp add: handle_def)
    then have "unchanged n w0 w'"
      using tk [of "OnQueueChannel r"] by (simp add: unchanged_Queue_onChannel)
    then show ?thesis using QueueChannelCreated by (intro fin) simp_all
  next
    case (QueueAsserted r err name)
    then have q: "Queue_onQueue rt r err name (take_token (OnQueue r) w0) = Inr w'"
      using h by (simp add: handle_def)
    have "unchanged n w (take_token (OnQueue r) w0)"
      using unchanged_trans [OF u0 tk [of "OnQueue r"]] QueueAsserted by simp
    then have "binv n (take_token (OnQueue r) w0)" using assms(1) binv_unchanged by blast
    then show ?thesis using q by (rule binv_Queue_onQueue)
  next
    case (QueueChannelClosed r)
    then have "w' = Queue_bail r (Some (Error ''Channel closed''))
        (take_token (OnQueueChannelClose r) w0)"
      using h by (simp add: handle_def)
    then have "unchanged n w0 w'"
      using tk [of "OnQueueChannelClose r"] by (simp add: unchanged_Queue_bail)
    then show ?thesis using QueueChannelClosed by (intro fin) simp_all
  next
    case (ConsumeStarted r err tag)
    then have "w' = onConsume r err tag (take_token (OnConsume r) w0)"
      using h by (simp add: handle_def)
    then have "unchanged n w0 w'"
      using tk [of "OnConsume r"] by (simp add: unchanged_onConsume)
    then show ?thesis using ConsumeStarted by (intro fin) simp_all
  next
    case (Delivery r c m)
    then have "onMessage rt r c m w0 = Inr w'" using h by (simp add: handle_def)
    then show ?thesis using Delivery by (intro fin) (simp_all add: unchanged_onMessage)
  next
    case (BindDone m k err)
    then have w': "w' = onBind m k err (take_token (OnBind m k) w0)"
      using h by (simp add: handle_def)
    show ?thesis
    proof (cases "m = n")
      case True
      have "OnBind n k \<in> set (outstanding w)" using assms(2) BindDone True by (simp add: enabled_def)
      then show ?thesis
        unfolding w' w0_def BindDone True using assms(1) binv_BindDone by blast
    next
      case False
      then have "unchanged n w0 w'"
        unfolding w' using tk [of "OnBind m k"] by (simp add: unchanged_onBind)
      then show ?thesis using BindDone False by (intro fin) simp_all
    qed
  next
    case (BoundThen m)
    then have w': "w' = log (Emit (TheQueue (NewQueue m)) EvBound None) (take_token (ThenBound m) w0)"
      using h by (simp add: handle_def)
    show ?thesis
    proof (cases "m = n")
      case True
      have "ThenBound n \<in> set (outstanding w)" using assms(2) BoundThen True by (simp add: enabled_def)
      then show ?thesis
        unfolding w' w0_def BoundThen True using assms(1) binv_BoundThen by blast
    next
      case False
      then have "unchanged n w0 w'"
        unfolding w' by (intro unchanged_rules) simp_all
      then show ?thesis using BoundThen False by (intro fin) simp_all
    qed
  next
    case (BindCatch m e)
    then have w': "w' = bail (Some e) (take_token (CatchBail m e) w0)"
      using h by (simp add: handle_def)
    show ?thesis
    proof (cases "m = n")
      case True
      have "CatchBail n e \<in> set (outstanding w)" using assms(2) BindCatch True by (simp add: enabled_def)
      then show ?thesis
        unfolding w' w0_def BindCatch True using assms(1) binv_BindCatch by blast
    next
      case False
      then have "unchanged n w0 w'"
        unfolding w' using tk [of "CatchBail m e"] by (simp add: unchanged_bail)
      then show ?thesis using BindCatch False by (intro fin) simp_all
    qed
  qed
qed

lemma binv_reachable:
  assumes "reachable rt w0 w" "binv n w0"
  shows "binv n w"
  using assms
proof (induction rule: reachable.induct)
  case reach_start
  then show ?case by simp
next
  case (reach_step w i w')
  then have "enabled i w" "handle rt i (log (Received i) w) = Inr w'"
    by (auto simp: step_def split: if_splits)
  then show ?case using reach_step binv_handle by blast
qed

lemma binv_constructed:
  assumes "Exchange_constructor name type options = Inr w0"
  shows "binv n w0"
proof -
  have t: "trace w0 = []" "outstanding w0 = []" "bindings w0 = Map.empty" "allocated w0 = 0"
    "\<forall>r q. heap w0 r = Some q \<longrightarrow> q_onceReady q = []" "heap w0 (NewQueue n) = None"
    using assms
    by (auto simp: Exchange_constructor_def Let_def Queue_constructor_def
        split: option.splits if_splits sum.splits)
  have "listens n w0 r = 0" for r
    using t(5) by (auto simp: listens_def split: option.splits)
  then show ?thesis
    using t by (simp add: binv_def keys_of_def closes_after_catch_def)
qed

lemma topic_world_constructed:
  "Exchange_constructor (Some ''ex'') (Some ''topic'') no_exchange_options = Inr topic_world"
  by (simp add: topic_world_def scenario_def world_of_def Exchange_constructor_def
      resolve_name_def isNameless_def isDefaultType_def DEFAULT_EXCHANGES_def Let_def)

lemma bound_world_reachable: "reachable sample_runtime topic_world bound_world"
proof -
  have "succeeds (scenario sample_runtime (Some ''ex'') (Some ''topic'') no_exchange_options two_keys)"
    by code_simp
  then have "scenario sample_runtime (Some ''ex'') (Some ''topic'') no_exchange_options two_keys
      = Some (Inr bound_world)"
    unfolding bound_world_def by (rule succeeds_world_of)
  then have "run sample_runtime two_keys topic_world = Some (Inr bound_world)"
    using topic_world_constructed by (simp add: scenario_def)
  then show ?thesis by (rule run_reachable)
qed

lemma bound_world_queue: "heap bound_world (NewQueue 0) = Some bound_queue"
proof -
  have "heap bound_world (NewQueue 0) \<noteq> None" unfolding bound_world_def by code_simp
  then show ?thesis by (auto simp: bound_queue_def)
qed

lemma bound_queue_keys: "bind_keys_of (q_options bound_queue) = [''a'', ''b'']"
  unfolding bound_queue_def bound_world_def by code_simp

lemma bound_world_last:
  "trace bound_world = butlast (trace bound_world) @ bound 0 # []"
proof -
  have "trace bound_world \<noteq> [] \<and> last (trace bound_world) = bound 0"
    unfolding bound_world_def bound_def by code_simp
  then show ?thesis by (metis append_butlast_last_id)
qed

text \<open>
  What the code does keep. For every queue made by a constructed exchange, in every world
  the exchange reaches, with K the number of keys that \<open>bind_keys_of\<close> keeps (the non-empty
  ones among those asked for): each "bound" of the queue in the trace comes after the
  callbacks without error of all K binds; "bound" is emitted at most once; once a bind has
  called back with an error, "bound" is not in the trace, its continuation is not pending,
  and the rejection is on the way to \<open>bail\<close> or \<open>bail\<close> has emitted "close" on the
  exchange; and once the binds were asked for and all K have called back without error,
  the continuation that emits "bound" is pending or "bound" was emitted.
\<close>

lemma bound_after_all_binds:
  assumes "Exchange_constructor name type options = Inr w0" "reachable rt w0 w"
    "heap w (NewQueue n) = Some q"
  shows "(\<forall>pre post. trace w = pre @ bound n # post \<longrightarrow>
            (\<forall>i<length (bind_keys_of (q_options q)). Received (BindDone n i None) \<in> set pre))
       \<and> count_list (trace w) (bound n) \<le> 1
       \<and> (\<forall>i e. Received (BindDone n i (Some e)) \<in> set (trace w) \<longrightarrow>
            bound n \<notin> set (trace w) \<and> ThenBound n \<notin> set (outstanding w)
            \<and> (\<exists>e'. CatchBail n e' \<in> set (outstanding w)
                    \<or> Emit TheExchange EvClose (Some e') \<in> set (trace w)))
       \<and> (bindings w n \<noteq> None
            \<and> (\<forall>i<length (bind_keys_of (q_options q)). Received (BindDone n i None) \<in> set (trace w))
          \<longrightarrow> ThenBound n \<in> set (outstanding w) \<or> bound n \<in> set (trace w))"
proof -
  have inv: "binv n w" using assms(2) binv_constructed [OF assms(1)] by (rule binv_reachable)
  have k: "keys_of n w = Some (length (bind_keys_of (q_options q)))"
    using assms(3) by (simp add: keys_of_def)
  show ?thesis
  proof (cases "bindings w n")
    case None
    then have a: "e \<notin> set (trace w)" if "about n e" for e
      using inv that by (simp add: binv_def)
    have "bound n \<notin> set (trace w)" by (rule a) simp
    moreover have "Received (BindDone n i err) \<notin> set (trace w)" for i err by (rule a) simp
    ultimately show ?thesis using None by (auto simp: count_list_notin)
  next
    case (Some b)
    define ps where "ps = b_promises b"
    have ok: "promises_ok n w b" using inv Some by (simp add: binv_def)
    have len: "length ps = length (bind_keys_of (q_options q))"
      using ok k by (simp add: promises_ok_def ps_def)
    have g: "bound_guarded n (length ps) (trace w)" using ok by (simp add: promises_ok_def ps_def)
    have c: "count_list (outstanding w) (ThenBound n) + count_list (trace w) (bound n)
        = (if list_all (\<lambda>p. p = Fulfilled) ps then 1 else 0)"
      using ok by (simp add: promises_ok_def ps_def)
    have rcv: "i < length ps \<and> ps ! i = (case err of None \<Rightarrow> Fulfilled | Some e \<Rightarrow> Rejected e)"
      if "Received (BindDone n i err) \<in> set (trace w)" for i err
      using ok that by (simp add: promises_ok_def ps_def)
    have 1: "\<forall>pre post. trace w = pre @ bound n # post \<longrightarrow>
        (\<forall>i<length (bind_keys_of (q_options q)). Received (BindDone n i None) \<in> set pre)"
      using g len unfolding bound_guarded_def by simp
    have 2: "count_list (trace w) (bound n) \<le> 1" using c by (auto split: if_splits)
    have 3: "bound n \<notin> set (trace w) \<and> ThenBound n \<notin> set (outstanding w)
        \<and> (\<exists>e'. CatchBail n e' \<in> set (outstanding w)
              \<or> Emit TheExchange EvClose (Some e') \<in> set (trace w))"
      if "Received (BindDone n i (Some e)) \<in> set (trace w)" for i e
    proof -
      have r: "first_rejected ps \<noteq> None" using rcv [OF that] first_rejected_nth by fastforce
      then have "\<not> list_all (\<lambda>p. p = Fulfilled) ps"
        using first_rejected_Fulfilled [of ps] by auto
      then have "count_list (outstanding w) (ThenBound n) = 0" "count_list (trace w) (bound n) = 0"
        using c by simp_all
      then have n: "bound n \<notin> set (trace w)" "ThenBound n \<notin> set (outstanding w)"
        by (simp_all add: in_set_count_list)
      from ok r obtain e' where
        "CatchBail n e' \<in> set (outstanding w) \<or> Received (BindCatch n e') \<in> set (trace w)"
        by (auto simp: promises_ok_def ps_def)
      moreover have "closes_after_catch n (trace w)" using inv by (simp add: binv_def)
      ultimately have "CatchBail n e' \<in> set (outstanding w)
          \<or> Emit TheExchange EvClose (Some e') \<in> set (trace w)"
        by (auto simp: closes_after_catch_def)
      then show ?thesis using n by blast
    qed
    have 4: "ThenBound n \<in> set (outstanding w) \<or> bound n \<in> set (trace w)"
      if "\<forall>i<length (bind_keys_of (q_options q)). Received (BindDone n i None) \<in> set (trace w)"
    proof -
      have "\<forall>i<length ps. ps ! i = Fulfilled" using that rcv len by fastforce
      then have "list_all (\<lambda>p. p = Fulfilled) ps" by (simp add: all_Fulfilled_nth)
      then have "0 < count_list (outstanding w) (ThenBound n) \<or> 0 < count_list (trace w) (bound n)"
        using c by auto
      then show ?thesis by (simp add: in_set_count_list)
    qed
    show ?thesis using 1 2 3 4 by blast
  qed
qed

lemma bound_world_bound:
  "Exchange_constructor (Some ''ex'') (Some ''topic'') no_exchange_options = Inr topic_world
   \<and> reachable sample_runtime topic_world bound_world
   \<and> heap bound_world (NewQueue 0) = Some bound_queue
   \<and> bind_keys_of (q_options bound_queue) = [''a'', ''b'']
   \<and> trace bound_world = butlast (trace bound_world) @ bound 0 # []
   \<and> Received (BindDone 0 0 None) \<in> set (butlast (trace bound_world))
   \<and> Received (BindDone 0 1 None) \<in> set (butlast (trace bound_world))
   \<and> count_list (trace bound_world) (bound 0) \<le> 1"
proof -
  note t = bound_after_all_binds [OF topic_world_constructed bound_world_reachable bound_world_queue]
  have "\<forall>i<2. Received (BindDone 0 i None) \<in> set (butlast (trace bound_world))"
    using t [THEN conjunct1, rule_format, OF bound_world_last] by (simp add: bound_queue_keys)
  then have r: "Received (BindDone 0 0 None) \<in> set (butlast (trace bound_world))"
    "Received (BindDone 0 1 None) \<in> set (butlast (trace bound_world))"
    by simp_all
  have c: "count_list (trace bound_world) (bound 0) \<le> 1"
    using t [THEN conjunct2, THEN conjunct1] .
  show ?thesis
    by (intro conjI topic_world_constructed bound_world_reachable bound_world_queue
        bound_queue_keys bound_world_last r c)
qed

text \<open>A key that is the empty string is filtered out as well: of the two keys asked for
  only "a" is bound, and "bound" is emitted after that one bind.\<close>

lemma empty_key_is_not_bound:
  "filter is_binding
     (trace_of (scenario sample_runtime (Some ''ex'') (Some ''topic'') no_exchange_options
        an_empty_key))
   = [BindQueue 1 (Some ''q'') ''ex'' ''a'', Received (BindDone 0 0 None), Received (BoundThen 0),
      Emit (TheQueue (NewQueue 0)) EvBound None]"
  by code_simp

section \<open>A queue without a key\<close>

lemma keyless_world_queue: "heap keyless_world (NewQueue 0) = Some keyless_queue"
proof -
  have "heap keyless_world (NewQueue 0) \<noteq> None" unfolding keyless_world_def by code_simp
  then show ?thesis by (auto simp: keyless_queue_def)
qed

lemma keyless_world_facts:
  "qo_keys (q_options keyless_queue) = None" "qo_key (q_options keyless_queue) = None"
  "x_name (exchange keyless_world) = ''ex''"
  "outstanding keyless_world = [OnChannelClose, OnChannelDrain, OnQueueChannel ReplyQueue,
     OnQueueChannelClose (NewQueue 0), OnQueue (NewQueue 0)]"
  unfolding keyless_queue_def keyless_world_def by code_simp+

text \<open>
  C7. In \<open>exchange.ts\<close> the keys to bind are \<open>(options?.keys || [options?.key]).filter(Boolean)\<close>.
  For a queue that was asked for without \<open>keys\<close> and without a key, or with the empty
  key, on an exchange that has a name, the filter leaves no key: when the queue is ready
  its listener calls \<open>bindQueue\<close> not once, the trace is what it was, and the continuation
  of the empty \<open>Promise.all\<close> is handed out, which emits "bound" when it runs. So "bound"
  is emitted for a queue that is bound to nothing. The legacy \<open>createQueue\<close> binds the
  one key of such a queue.
\<close>

theorem keyless_queue_is_not_bound:
  assumes "heap w (NewQueue n) = Some q" "qo_keys (q_options q) = None"
    "\<not> truthy_str (qo_key (q_options q))" "\<not> isNameless (Some (x_name (exchange w)))"
  shows "\<exists>w' w''. Queue_listener rt r (BindOnReady n) w = Inr w'
      \<and> trace w' = trace w
      \<and> outstanding w' = outstanding w @ [ThenBound n]
      \<and> step rt (BoundThen n) w' = Some (Inr w'')
      \<and> trace w'' = trace w @ [Received (BoundThen n), Emit (TheQueue (NewQueue n)) EvBound None]
      \<and> bind_keys_of_legacy (q_options q) = [qo_key (q_options q)]"
proof -
  have k: "bind_keys_of (q_options q) = []"
    using assms(2,3) by (simp add: bind_keys_of_def)
  define w' where "w' = bindKeys n [] w"
  have l: "Queue_listener rt r (BindOnReady n) w = Inr w'"
    using assms(1,4) k by (simp add: Queue_listener_def w'_def)
  have t: "trace w' = trace w" "outstanding w' = outstanding w @ [ThenBound n]"
    by (simp_all add: w'_def bindKeys_def Promise_all_def)
  have e: "enabled (BoundThen n) w'" using t(2) by (simp add: enabled_def)
  define w'' where "w'' = log (Emit (TheQueue (NewQueue n)) EvBound None)
                            (take_token (ThenBound n) (log (Received (BoundThen n)) w'))"
  have s: "step rt (BoundThen n) w' = Some (Inr w'')"
    using e by (simp add: step_def handle_def w''_def)
  have "trace w'' = trace w @ [Received (BoundThen n), Emit (TheQueue (NewQueue n)) EvBound None]"
    using t(1) by (simp add: w''_def)
  moreover have "bind_keys_of_legacy (q_options q) = [qo_key (q_options q)]"
    using assms(2) by (simp add: bind_keys_of_legacy_def)
  ultimately show ?thesis using l t s by blast
qed

theorem keyless_queue_is_not_bound_witness:
  "heap keyless_world (NewQueue 0) = Some keyless_queue
   \<and> qo_keys (q_options keyless_queue) = None
   \<and> \<not> truthy_str (qo_key (q_options keyless_queue))
   \<and> \<not> isNameless (Some (x_name (exchange keyless_world)))
   \<and> (\<exists>w' w''. Queue_listener sample_runtime (NewQueue 0) (BindOnReady 0) keyless_world = Inr w'
        \<and> trace w' = trace keyless_world
        \<and> outstanding w' = [OnChannelClose, OnChannelDrain, OnQueueChannel ReplyQueue,
             OnQueueChannelClose (NewQueue 0), OnQueue (NewQueue 0), ThenBound 0]
        \<and> step sample_runtime (BoundThen 0) w' = Some (Inr w'')
        \<and> trace w'' = trace keyless_world
             @ [Received (BoundThen 0), Emit (TheQueue (NewQueue 0)) EvBound None]
        \<and> bind_keys_of_legacy (q_options keyless_queue) = [None])"
proof -
  have h: "\<not> truthy_str (qo_key (q_options keyless_queue))"
    "\<not> isNameless (Some (x_name (exchange keyless_world)))"
    by (simp_all add: keyless_world_facts isNameless_def)
  from keyless_queue_is_not_bound [OF keyless_world_queue keyless_world_facts(1) h,
      of sample_runtime "NewQueue 0"]
  have "\<exists>w' w''. Queue_listener sample_runtime (NewQueue 0) (BindOnReady 0) keyless_world = Inr w'
        \<and> trace w' = trace keyless_world
        \<and> outstanding w' = [OnChannelClose, OnChannelDrain, OnQueueChannel ReplyQueue,
             OnQueueChannelClose (NewQueue 0), OnQueue (NewQueue 0), ThenBound 0]
        \<and> step sample_runtime (BoundThen 0) w' = Some (Inr w'')
        \<and> trace w'' = trace keyless_world
             @ [Received (BoundThen 0), Emit (TheQueue (NewQueue 0)) EvBound None]
        \<and> bind_keys_of_legacy (q_options keyless_queue) = [None]"
    by (simp add: keyless_world_facts)
  then show ?thesis
    by (intro conjI keyless_world_queue keyless_world_facts(1) h)
qed

text \<open>The whole run: the exchange "ex" of type topic, a queue asked for with no key. The
  part of the trace that is about binding has no \<open>bindQueue\<close>, and "bound" is emitted.\<close>

lemma keyless_queue_run:
  "filter is_binding
     (trace_of (scenario sample_runtime (Some ''ex'') (Some ''topic'') no_exchange_options
        (keyless @ [QueueAsserted (NewQueue 0) None ''q'', BoundThen 0])))
   = [Received (BoundThen 0), Emit (TheQueue (NewQueue 0)) EvBound None]"
  by code_simp

end
